theory Spec2Isabelle
  imports Main "HOL-Library.AList" "HOL-Library.Word"
begin

section \<open>Python values\<close>

text \<open>
  A Python \<^verbatim>\<open>str\<close> is a sequence of Unicode code points. Isabelle's \<open>char\<close> has eight
  bits, and the JSON escapes \<^verbatim>\<open>\uXXXX\<close> reach code points above 255, so a string is a
  list of code points, each a natural number. \<open>U ''abc''\<close> is the Python literal
  \<^verbatim>\<open>"abc"\<close>.
\<close>

type_synonym pystr = "nat list"

definition U :: "string \<Rightarrow> pystr" where
  "U s = map of_char s"

text \<open>
  The values \<^verbatim>\<open>response.json()\<close> and \<^verbatim>\<open>json.loads\<close> build: \<^verbatim>\<open>None\<close>, \<^verbatim>\<open>bool\<close>,
  \<^verbatim>\<open>int\<close> (unbounded), \<^verbatim>\<open>float\<close> (an IEEE 754 double, kept as its 64 bits), \<^verbatim>\<open>str\<close>,
  \<^verbatim>\<open>list\<close> and \<^verbatim>\<open>dict\<close>. A \<^verbatim>\<open>dict\<close> keeps its keys in insertion order, so it is an
  association list; \<open>map_of\<close> looks a key up and \<open>AList.update\<close> stores a value the way
  \<^verbatim>\<open>d[k] = v\<close> does (in place for a key already there, at the end for a new key).
\<close>

datatype json =
    JNull
  | JBool bool
  | JInt int
  | JFloat "64 word"
  | JStr pystr
  | JList "json list"
  | JDict "(pystr \<times> json) list"

text \<open>The exceptions the three scripts can meet.\<close>

datatype py_error =
    TypeError
  | AttributeError
  | KeyError pystr
  | IndexError
  | JSONDecodeError
  | RecursionError
  | ValueError
  | GraphQLError json
  | HTTPError nat
  | ConnectionError
  | InvalidJSONBody
  | OSError

text \<open>Sequencing of statements that may raise: the first exception ends the run.\<close>

definition and_then :: "'e + 'a \<Rightarrow> ('a \<Rightarrow> 'e + 'b) \<Rightarrow> 'e + 'b" where
  "and_then m f = (case m of Inl e \<Rightarrow> Inl e | Inr v \<Rightarrow> f v)"

text \<open>
  A \<^verbatim>\<open>for\<close> loop that appends one item to a list per element: the elements are
  visited in order, and an exception raised for one of them leaves the loop.
\<close>

fun for_each :: "('a \<Rightarrow> 'e + 'b) \<Rightarrow> 'a list \<Rightarrow> 'e + 'b list" where
  "for_each f [] = Inr []"
| "for_each f (x # xs) =
     and_then (f x) (\<lambda>y. and_then (for_each f xs) (\<lambda>ys. Inr (y # ys)))"

text \<open>
  Truth value testing (\<^verbatim>\<open>if x\<close>, \<^verbatim>\<open>not x\<close>): \<^verbatim>\<open>None\<close>, \<^verbatim>\<open>False\<close>, zero and the empty
  string, list and dict are false. A float is zero when all bits but its sign are.
\<close>

fun truthy :: "json \<Rightarrow> bool" where
  "truthy JNull = False"
| "truthy (JBool b) = b"
| "truthy (JInt i) = (i \<noteq> 0)"
| "truthy (JFloat w) = (push_bit 1 w \<noteq> 0)"
| "truthy (JStr s) = (s \<noteq> [])"
| "truthy (JList xs) = (xs \<noteq> [])"
| "truthy (JDict kvs) = (kvs \<noteq> [])"

text \<open>\<^verbatim>\<open>obj.get(k, default)\<close>: only a dict has the method.\<close>

fun dict_get :: "json \<Rightarrow> pystr \<Rightarrow> json \<Rightarrow> py_error + json" where
  "dict_get (JDict kvs) k d = Inr (case map_of kvs k of Some v \<Rightarrow> v | None \<Rightarrow> d)"
| "dict_get _ k d = Inl AttributeError"

text \<open>\<^verbatim>\<open>obj[k]\<close> for a string \<open>k\<close>: a dict without the key raises \<^verbatim>\<open>KeyError\<close>; a list or a
  string wants an integer index and every other value is not subscriptable.\<close>

fun subscript :: "json \<Rightarrow> pystr \<Rightarrow> py_error + json" where
  "subscript (JDict kvs) k = (case map_of kvs k of Some v \<Rightarrow> Inr v | None \<Rightarrow> Inl (KeyError k))"
| "subscript _ k = Inl TypeError"

text \<open>\<open>is_substring k s\<close>: the string \<open>k\<close> occurs in \<open>s\<close>.\<close>

fun starts_with :: "'a list \<Rightarrow> 'a list \<Rightarrow> bool" where
  "starts_with [] s = True"
| "starts_with (a # k) [] = False"
| "starts_with (a # k) (b # s) = (a = b \<and> starts_with k s)"

fun is_substring :: "'a list \<Rightarrow> 'a list \<Rightarrow> bool" where
  "is_substring k [] = (k = [])"
| "is_substring k (b # s) = (starts_with k (b # s) \<or> is_substring k s)"

text \<open>\<^verbatim>\<open>k in obj\<close> for a string \<open>k\<close>: a key of a dict, an element of a list, a substring
  of a string; any other value is not iterable.\<close>

fun py_in :: "pystr \<Rightarrow> json \<Rightarrow> py_error + bool" where
  "py_in k (JDict kvs) = Inr (k \<in> set (map fst kvs))"
| "py_in k (JList xs) = Inr (JStr k \<in> set xs)"
| "py_in k (JStr s) = Inr (is_substring k s)"
| "py_in k _ = Inl TypeError"

text \<open>What \<^verbatim>\<open>for x in obj\<close> visits: the elements of a list, the keys of a dict, the
  characters of a string.\<close>

fun py_iter :: "json \<Rightarrow> py_error + json list" where
  "py_iter (JList xs) = Inr xs"
| "py_iter (JDict kvs) = Inr (map (\<lambda>kv. JStr (fst kv)) kvs)"
| "py_iter (JStr s) = Inr (map (\<lambda>c. JStr [c]) s)"
| "py_iter _ = Inl TypeError"

fun py_len :: "json \<Rightarrow> py_error + nat" where
  "py_len (JList xs) = Inr (length xs)"
| "py_len (JDict kvs) = Inr (length kvs)"
| "py_len (JStr s) = Inr (length s)"
| "py_len _ = Inl TypeError"

section \<open>The trace fetcher: scripts/fetch\_phoenix\_traces.py\<close>

text \<open>
  \<^verbatim>\<open>json.loads\<close> is a library function: the fetcher takes it as the parameter \<open>loads\<close>,
  which returns the decoded value or the exception it raises. The fetcher catches
  \<^verbatim>\<open>json.JSONDecodeError\<close> only.
\<close>

type_synonym decoder = "pystr \<Rightarrow> py_error + json"

text \<open>Lines 108 to 113: the attributes string is decoded when it is a non-empty string
  and the decoder accepts it, and kept as it is otherwise.\<close>

fun parse_attrs :: "decoder \<Rightarrow> json \<Rightarrow> py_error + json" where
  "parse_attrs loads (JStr s) =
     (if s \<noteq> [] then
        (case loads s of
           Inr v \<Rightarrow> Inr v
         | Inl JSONDecodeError \<Rightarrow> Inr (JStr s)
         | Inl e \<Rightarrow> Inl e)
      else Inr (JStr s))"
| "parse_attrs loads attrs = Inr attrs"

text \<open>Lines 127 and 128:
  \<^verbatim>\<open>span.get(k, {}).get("value") if span.get(k) else None\<close>.\<close>

definition io_value :: "json \<Rightarrow> pystr \<Rightarrow> py_error + json" where
  "io_value span k =
     and_then (dict_get span k JNull) (\<lambda>c.
       if truthy c then
         and_then (dict_get span k (JDict [])) (\<lambda>d. dict_get d (U ''value'') JNull)
       else Inr JNull)"

text \<open>Lines 106 to 130, for one element of a trace's span edges.\<close>

definition flatten_span :: "decoder \<Rightarrow> json \<Rightarrow> py_error + json" where
  "flatten_span loads span_edge =
     and_then (subscript span_edge (U ''node'')) (\<lambda>span.
     and_then (dict_get span (U ''attributes'') JNull) (\<lambda>attrs0.
     and_then (parse_attrs loads attrs0) (\<lambda>attrs.
     and_then (subscript span (U ''name'')) (\<lambda>name.
     and_then (subscript span (U ''spanKind'')) (\<lambda>spanKind.
     and_then (subscript span (U ''statusCode'')) (\<lambda>statusCode.
     and_then (dict_get span (U ''statusMessage'') JNull) (\<lambda>statusMessage.
     and_then (subscript span (U ''startTime'')) (\<lambda>startTime.
     and_then (subscript span (U ''endTime'')) (\<lambda>endTime.
     and_then (subscript span (U ''latencyMs'')) (\<lambda>latencyMs.
     and_then (subscript span (U ''parentId'')) (\<lambda>parentId.
     and_then (subscript span (U ''tokenCountTotal'')) (\<lambda>tokenCountTotal.
     and_then (subscript span (U ''tokenCountPrompt'')) (\<lambda>tokenCountPrompt.
     and_then (subscript span (U ''tokenCountCompletion'')) (\<lambda>tokenCountCompletion.
     and_then (io_value span (U ''input'')) (\<lambda>input.
     and_then (io_value span (U ''output'')) (\<lambda>output.
       Inr (JDict
         [(U ''name'', name),
          (U ''spanKind'', spanKind),
          (U ''statusCode'', statusCode),
          (U ''statusMessage'', statusMessage),
          (U ''startTime'', startTime),
          (U ''endTime'', endTime),
          (U ''latencyMs'', latencyMs),
          (U ''parentId'', parentId),
          (U ''tokenCountTotal'', tokenCountTotal),
          (U ''tokenCountPrompt'', tokenCountPrompt),
          (U ''tokenCountCompletion'', tokenCountCompletion),
          (U ''input'', input),
          (U ''output'', output),
          (U ''attributes'', attrs)])))))))))))))))))"

text \<open>Lines 96 to 133, for one element of the session's trace edges.\<close>

definition flatten_trace :: "decoder \<Rightarrow> json \<Rightarrow> py_error + json" where
  "flatten_trace loads trace_edge =
     and_then (subscript trace_edge (U ''node'')) (\<lambda>trace.
     and_then (subscript trace (U ''traceId'')) (\<lambda>traceId.
     and_then (subscript trace (U ''startTime'')) (\<lambda>startTime.
     and_then (subscript trace (U ''endTime'')) (\<lambda>endTime.
     and_then (subscript trace (U ''latencyMs'')) (\<lambda>latencyMs.
     and_then (dict_get trace (U ''spans'') (JDict [])) (\<lambda>spans.
     and_then (dict_get spans (U ''edges'') (JList [])) (\<lambda>edges.
     and_then (py_iter edges) (\<lambda>span_edges.
     and_then (for_each (flatten_span loads) span_edges) (\<lambda>span_list.
       Inr (JDict
         [(U ''traceId'', traceId),
          (U ''startTime'', startTime),
          (U ''endTime'', endTime),
          (U ''latencyMs'', latencyMs),
          (U ''spans'', JList span_list)]))))))))))"

text \<open>
  Lines 77 to 135, from the parsed payload on. The result \<open>None\<close> is the source's
  \<^verbatim>\<open>return None\<close>, the "not found" signal.
\<close>

definition flatten_payload :: "decoder \<Rightarrow> json \<Rightarrow> py_error + json option" where
  "flatten_payload loads data =
     and_then (py_in (U ''errors'') data) (\<lambda>has_errors.
     if has_errors then
       and_then (subscript data (U ''errors'')) (\<lambda>errs. Inl (GraphQLError errs))
     else
     and_then (dict_get data (U ''data'') (JDict [])) (\<lambda>d.
     and_then (dict_get d (U ''getProjectSessionById'') JNull) (\<lambda>session_data.
     if \<not> truthy session_data then Inr None
     else
     and_then (subscript session_data (U ''sessionId'')) (\<lambda>sessionId.
     and_then (subscript session_data (U ''numTraces'')) (\<lambda>numTraces.
     and_then (subscript session_data (U ''startTime'')) (\<lambda>startTime.
     and_then (subscript session_data (U ''endTime'')) (\<lambda>endTime.
     and_then (dict_get session_data (U ''traces'') (JDict [])) (\<lambda>traces.
     and_then (dict_get traces (U ''edges'') (JList [])) (\<lambda>edges.
     and_then (py_iter edges) (\<lambda>trace_edges.
     and_then (for_each (flatten_trace loads) trace_edges) (\<lambda>trace_list.
       Inr (Some (JDict
         [(U ''sessionId'', sessionId),
          (U ''numTraces'', numTraces),
          (U ''startTime'', startTime),
          (U ''endTime'', endTime),
          (U ''traces'', JList trace_list)])))))))))))))"

text \<open>
  The network is the environment: \<open>post url session_id\<close> is what \<^verbatim>\<open>requests.post\<close>
  meets for the fixed query with the variable \<^verbatim>\<open>sessionId\<close>. \<open>NoReply\<close> is a request
  that raises (no connection); \<open>Reply status body\<close> is a response with its status code
  and its body as \<^verbatim>\<open>response.json()\<close> parses it, \<open>None\<close> when the body is not JSON.
\<close>

datatype http_reply = NoReply | Reply nat "json option"

type_synonym transport = "pystr \<Rightarrow> pystr \<Rightarrow> http_reply"

text \<open>Lines 20 to 135. \<^verbatim>\<open>raise_for_status\<close> raises for the status codes 400 to 599.\<close>

definition fetch_traces :: "decoder \<Rightarrow> transport \<Rightarrow> pystr \<Rightarrow> pystr \<Rightarrow> py_error + json option" where
  "fetch_traces loads post session_id base_url =
     (case post (base_url @ U ''/graphql'') session_id of
        NoReply \<Rightarrow> Inl ConnectionError
      | Reply status body \<Rightarrow>
          if 400 \<le> status \<and> status < 600 then Inl (HTTPError status)
          else (case body of
                  None \<Rightarrow> Inl InvalidJSONBody
                | Some data \<Rightarrow> flatten_payload loads data))"

text \<open>
  The command line of \<^verbatim>\<open>main\<close>, as \<^verbatim>\<open>argparse\<close> delivers it, and what a run leaves
  behind: the exit code, the diagnostics on standard error (each message is its
  template with its arguments), the text printed on standard output and the files
  written, each with its content.
\<close>

record cli_args =
  arg_session_id :: pystr
  arg_output :: "pystr option"
  arg_base_url :: pystr

datatype diagnostic =
    FetchingTraces pystr
  | PhoenixURL pystr
  | ErrorFetching py_error
  | NoSessionFound pystr
  | Found json nat
  | TracesWritten pystr
  | Traceback py_error

record outcome =
  exit_code :: nat
  stderr :: "diagnostic list"
  stdout :: "pystr list"
  files_written :: "(pystr \<times> pystr) list"

text \<open>Line 172: \<^verbatim>\<open>sum(len(t["spans"]) for t in result["traces"])\<close>.\<close>

definition total_spans :: "json \<Rightarrow> py_error + nat" where
  "total_spans result =
     and_then (subscript result (U ''traces'')) (\<lambda>traces.
     and_then (py_iter traces) (\<lambda>ts.
     and_then (for_each (\<lambda>t. and_then (subscript t (U ''spans'')) py_len) ts) (\<lambda>ns.
       Inr (sum_list ns))))"

text \<open>
  Lines 138 to 183. \<open>dumps\<close> is \<^verbatim>\<open>json.dumps(result, indent=2, default=str)\<close> and
  \<open>writable path\<close> tells whether \<^verbatim>\<open>open(path, "w")\<close> succeeds. An exception that
  nothing catches ends the process with a traceback and exit code 1.
\<close>

definition main :: "decoder \<Rightarrow> (json \<Rightarrow> pystr) \<Rightarrow> transport \<Rightarrow> (pystr \<Rightarrow> bool) \<Rightarrow> cli_args \<Rightarrow> outcome" where
  "main loads dumps post writable args =
     (let log = [FetchingTraces (arg_session_id args), PhoenixURL (arg_base_url args)] in
      case fetch_traces loads post (arg_session_id args) (arg_base_url args) of
        Inl e \<Rightarrow>
          \<lparr>exit_code = 1, stderr = log @ [ErrorFetching e], stdout = [], files_written = []\<rparr>
      | Inr None \<Rightarrow>
          \<lparr>exit_code = 1, stderr = log @ [NoSessionFound (arg_session_id args)],
           stdout = [], files_written = []\<rparr>
      | Inr (Some result) \<Rightarrow>
          (case and_then (total_spans result) (\<lambda>n.
                  and_then (subscript result (U ''numTraces'')) (\<lambda>num. Inr (Found num n))) of
             Inl e \<Rightarrow>
               \<lparr>exit_code = 1, stderr = log @ [Traceback e], stdout = [], files_written = []\<rparr>
           | Inr found \<Rightarrow>
               (case arg_output args of
                  Some path \<Rightarrow>
                    if path \<noteq> [] then
                      (if writable path then
                         \<lparr>exit_code = 0, stderr = log @ [found, TracesWritten path],
                          stdout = [], files_written = [(path, dumps result)]\<rparr>
                       else
                         \<lparr>exit_code = 1, stderr = log @ [found, Traceback OSError],
                          stdout = [], files_written = []\<rparr>)
                    else
                      \<lparr>exit_code = 0, stderr = log @ [found], stdout = [dumps result],
                       files_written = []\<rparr>
                | None \<Rightarrow>
                    \<lparr>exit_code = 0, stderr = log @ [found], stdout = [dumps result],
                     files_written = []\<rparr>)))"

subsection \<open>Well-formed responses\<close>

text \<open>
  The response the fixed query asks for (section 6 of the specification):
  \<^verbatim>\<open>data.getProjectSessionById\<close> is an object with the four session fields and
  \<^verbatim>\<open>traces.edges\<close>, a list; each edge has a \<^verbatim>\<open>node\<close> with the four trace fields and
  \<^verbatim>\<open>spans.edges\<close>, a list; each span edge has a \<^verbatim>\<open>node\<close> with the span fields. The
  fields the source reads with \<^verbatim>\<open>.get\<close> (\<^verbatim>\<open>statusMessage\<close>, \<^verbatim>\<open>input\<close>, \<^verbatim>\<open>output\<close>,
  \<^verbatim>\<open>attributes\<close>) may be missing; \<^verbatim>\<open>input\<close> and \<^verbatim>\<open>output\<close> are objects when they
  are there and not null.
\<close>

definition has_keys :: "(pystr \<times> json) list \<Rightarrow> pystr list \<Rightarrow> bool" where
  "has_keys kvs ks = list_all (\<lambda>k. map_of kvs k \<noteq> None) ks"

fun is_dict :: "json \<Rightarrow> bool" where
  "is_dict (JDict kvs) = True"
| "is_dict _ = False"

definition span_required :: "pystr list" where
  "span_required =
     [U ''name'', U ''spanKind'', U ''statusCode'', U ''startTime'', U ''endTime'',
      U ''latencyMs'', U ''parentId'', U ''tokenCountTotal'', U ''tokenCountPrompt'',
      U ''tokenCountCompletion'']"

definition trace_required :: "pystr list" where
  "trace_required = [U ''traceId'', U ''startTime'', U ''endTime'', U ''latencyMs'']"

definition session_required :: "pystr list" where
  "session_required = [U ''sessionId'', U ''numTraces'', U ''startTime'', U ''endTime'']"

definition io_ok :: "(pystr \<times> json) list \<Rightarrow> pystr \<Rightarrow> bool" where
  "io_ok kvs k = (case map_of kvs k of None \<Rightarrow> True | Some v \<Rightarrow> truthy v \<longrightarrow> is_dict v)"

definition wf_span_edge :: "json \<Rightarrow> bool" where
  "wf_span_edge e =
     (case e of
        JDict ekv \<Rightarrow>
          (case map_of ekv (U ''node'') of
             Some (JDict nkv) \<Rightarrow>
               has_keys nkv span_required \<and> io_ok nkv (U ''input'') \<and> io_ok nkv (U ''output'')
           | _ \<Rightarrow> False)
      | _ \<Rightarrow> False)"

text \<open>\<open>edges_of kvs k\<close>: the list at \<^verbatim>\<open>k.edges\<close> of an object, when it has that shape.\<close>

definition edges_of :: "(pystr \<times> json) list \<Rightarrow> pystr \<Rightarrow> json list option" where
  "edges_of kvs k =
     (case map_of kvs k of
        Some (JDict ckv) \<Rightarrow>
          (case map_of ckv (U ''edges'') of Some (JList es) \<Rightarrow> Some es | _ \<Rightarrow> None)
      | _ \<Rightarrow> None)"

definition wf_trace_edge :: "json \<Rightarrow> bool" where
  "wf_trace_edge e =
     (case e of
        JDict ekv \<Rightarrow>
          (case map_of ekv (U ''node'') of
             Some (JDict nkv) \<Rightarrow>
               has_keys nkv trace_required \<and>
               (case edges_of nkv (U ''spans'') of
                  Some es \<Rightarrow> list_all wf_span_edge es
                | None \<Rightarrow> False)
           | _ \<Rightarrow> False)
      | _ \<Rightarrow> False)"

text \<open>The session object of a payload, when the payload has one.\<close>

definition session_of :: "json \<Rightarrow> (pystr \<times> json) list option" where
  "session_of payload =
     (case payload of
        JDict kvs \<Rightarrow>
          (case map_of kvs (U ''data'') of
             Some (JDict d) \<Rightarrow>
               (case map_of d (U ''getProjectSessionById'') of
                  Some (JDict skv) \<Rightarrow> Some skv
                | _ \<Rightarrow> None)
           | _ \<Rightarrow> None)
      | _ \<Rightarrow> None)"

definition wf_payload :: "json \<Rightarrow> bool" where
  "wf_payload payload =
     (case payload of
        JDict kvs \<Rightarrow>
          map_of kvs (U ''errors'') = None \<and>
          (case session_of payload of
             Some skv \<Rightarrow>
               has_keys skv session_required \<and>
               (case edges_of skv (U ''traces'') of
                  Some es \<Rightarrow> list_all wf_trace_edge es
                | None \<Rightarrow> False)
           | None \<Rightarrow> False)
      | _ \<Rightarrow> False)"

text \<open>The trace edges of a payload and the span edges and the node of an edge, in the
  server's order (empty, or null, where the payload has not that shape).\<close>

definition node_of :: "json \<Rightarrow> (pystr \<times> json) list" where
  "node_of e =
     (case e of
        JDict ekv \<Rightarrow> (case map_of ekv (U ''node'') of Some (JDict nkv) \<Rightarrow> nkv | _ \<Rightarrow> [])
      | _ \<Rightarrow> [])"

definition trace_edges :: "json \<Rightarrow> json list" where
  "trace_edges payload =
     (case session_of payload of
        Some skv \<Rightarrow> (case edges_of skv (U ''traces'') of Some es \<Rightarrow> es | None \<Rightarrow> [])
      | None \<Rightarrow> [])"

definition span_edges :: "json \<Rightarrow> json list" where
  "span_edges trace_edge =
     (case edges_of (node_of trace_edge) (U ''spans'') of Some es \<Rightarrow> es | None \<Rightarrow> [])"

text \<open>On the \<^verbatim>\<open>attributes\<close> of a span edge, when they are a non-empty string, the
  decoder returns a value or raises \<^verbatim>\<open>JSONDecodeError\<close> (the interpreter's own limits,
  such as its recursion depth, are not met on that string); \<open>payload_decodable\<close> says so
  of every span edge of a payload.\<close>

definition attrs_decodable :: "decoder \<Rightarrow> json \<Rightarrow> bool" where
  "attrs_decodable loads span_edge =
     (case map_of (node_of span_edge) (U ''attributes'') of
        Some (JStr s) \<Rightarrow>
          s \<noteq> [] \<longrightarrow> (case loads s of Inl err \<Rightarrow> err = JSONDecodeError | Inr v \<Rightarrow> True)
      | _ \<Rightarrow> True)"

definition payload_decodable :: "decoder \<Rightarrow> json \<Rightarrow> bool" where
  "payload_decodable loads payload =
     list_all (\<lambda>t. list_all (attrs_decodable loads) (span_edges t)) (trace_edges payload)"

text \<open>The fourteen keys of a flattened span, in the order of its dict literal
  (lines 115 to 130).\<close>

definition output_keys :: "pystr list" where
  "output_keys =
     [U ''name'', U ''spanKind'', U ''statusCode'', U ''statusMessage'', U ''startTime'',
      U ''endTime'', U ''latencyMs'', U ''parentId'', U ''tokenCountTotal'',
      U ''tokenCountPrompt'', U ''tokenCountCompletion'', U ''input'', U ''output'',
      U ''attributes'']"

subsection \<open>Sample inputs\<close>

text \<open>A decoder that rejects every string, a server that answers every request with
  status 200 and a given payload, and sample responses built the way section 6 of the
  specification shapes them.\<close>

definition reject_all :: decoder where
  "reject_all s = Inl JSONDecodeError"

definition server :: "json \<Rightarrow> transport" where
  "server payload url session_id = Reply 200 (Some payload)"

definition example_span :: "pystr \<Rightarrow> json \<Rightarrow> json" where
  "example_span name attrs =
     JDict [(U ''node'', JDict
       [(U ''name'', JStr name),
        (U ''spanKind'', JStr (U ''LLM'')),
        (U ''statusCode'', JStr (U ''OK'')),
        (U ''statusMessage'', JNull),
        (U ''startTime'', JStr (U ''2026-01-01T00:00:00Z'')),
        (U ''endTime'', JStr (U ''2026-01-01T00:00:01Z'')),
        (U ''latencyMs'', JInt 1000),
        (U ''parentId'', JNull),
        (U ''tokenCountTotal'', JInt 12),
        (U ''tokenCountPrompt'', JNull),
        (U ''tokenCountCompletion'', JNull),
        (U ''input'', JDict [(U ''value'', JStr (U ''hi''))]),
        (U ''output'', JNull),
        (U ''attributes'', attrs)])]"

definition example_trace :: "pystr \<Rightarrow> json list \<Rightarrow> json" where
  "example_trace tid sps =
     JDict [(U ''node'', JDict
       [(U ''traceId'', JStr tid),
        (U ''startTime'', JStr (U ''2026-01-01T00:00:00Z'')),
        (U ''endTime'', JStr (U ''2026-01-01T00:00:02Z'')),
        (U ''latencyMs'', JInt 2000),
        (U ''spans'', JDict [(U ''edges'', JList sps)])])]"

definition example_payload :: "json list \<Rightarrow> json" where
  "example_payload ts =
     JDict [(U ''data'', JDict [(U ''getProjectSessionById'', JDict
       [(U ''sessionId'', JStr (U ''s1'')),
        (U ''numTraces'', JInt (int (length ts))),
        (U ''startTime'', JStr (U ''2026-01-01T00:00:00Z'')),
        (U ''endTime'', JStr (U ''2026-01-01T00:00:09Z'')),
        (U ''traces'', JDict [(U ''edges'', JList ts)])])])]"

definition two_traces :: json where
  "two_traces = example_payload
     [example_trace (U ''t1'') [example_span (U ''a'') JNull],
      example_trace (U ''t2'') [example_span (U ''b'') (JStr (U ''{oops'')), example_span (U ''c'') JNull]]"

text \<open>A span node without the key \<^verbatim>\<open>tokenCountTotal\<close>.\<close>

definition span_without_total :: json where
  "span_without_total =
     JDict [(U ''node'', JDict
       [(U ''name'', JStr (U ''a'')),
        (U ''spanKind'', JStr (U ''LLM'')),
        (U ''statusCode'', JStr (U ''OK'')),
        (U ''statusMessage'', JNull),
        (U ''startTime'', JStr (U ''2026-01-01T00:00:00Z'')),
        (U ''endTime'', JStr (U ''2026-01-01T00:00:01Z'')),
        (U ''latencyMs'', JInt 1000),
        (U ''parentId'', JNull),
        (U ''tokenCountPrompt'', JNull),
        (U ''tokenCountCompletion'', JNull),
        (U ''input'', JNull),
        (U ''output'', JNull),
        (U ''attributes'', JNull)])]"

text \<open>A span node without the keys \<^verbatim>\<open>statusMessage\<close>, \<^verbatim>\<open>input\<close>, \<^verbatim>\<open>output\<close> and
  \<^verbatim>\<open>attributes\<close>, with two null token counts.\<close>

definition span_without_optional :: json where
  "span_without_optional =
     JDict [(U ''node'', JDict
       [(U ''name'', JStr (U ''a'')),
        (U ''spanKind'', JStr (U ''CHAIN'')),
        (U ''statusCode'', JStr (U ''OK'')),
        (U ''startTime'', JStr (U ''2026-01-01T00:00:00Z'')),
        (U ''endTime'', JStr (U ''2026-01-01T00:00:01Z'')),
        (U ''latencyMs'', JInt 1000),
        (U ''parentId'', JNull),
        (U ''tokenCountTotal'', JNull),
        (U ''tokenCountPrompt'', JInt 7),
        (U ''tokenCountCompletion'', JNull)])]"

text \<open>What the server answers for a session it does not know.\<close>

definition not_found_payload :: json where
  "not_found_payload = JDict [(U ''data'', JDict [(U ''getProjectSessionById'', JNull)])]"

definition example_args :: cli_args where
  "example_args =
     \<lparr>arg_session_id = U ''s1'', arg_output = Some (U ''traces.json''),
      arg_base_url = U ''http://localhost:6006''\<rparr>"

section \<open>The cross-referencer: test/packages/parallel/system/script.py\<close>

text \<open>
  \<^verbatim>\<open>s.split(sep)\<close> for a separator of one character: the pieces between the
  separators, the empty ones too; at least one piece.
\<close>

fun py_split :: "nat \<Rightarrow> pystr \<Rightarrow> pystr list" where
  "py_split sep [] = [[]]"
| "py_split sep (c # cs) =
     (if c = sep then [] # py_split sep cs
      else (case py_split sep cs of
              w # ws \<Rightarrow> (c # w) # ws
            | [] \<Rightarrow> [[c]]))"

text \<open>The characters \<^verbatim>\<open>str.isspace\<close> accepts, which \<^verbatim>\<open>str.strip()\<close> removes at both
  ends.\<close>

definition is_space :: "nat \<Rightarrow> bool" where
  "is_space c \<longleftrightarrow>
     (0x09 \<le> c \<and> c \<le> 0x0D) \<or> (0x1C \<le> c \<and> c \<le> 0x20) \<or> c = 0x85 \<or> c = 0xA0 \<or>
     c = 0x1680 \<or> (0x2000 \<le> c \<and> c \<le> 0x200A) \<or> c = 0x2028 \<or> c = 0x2029 \<or>
     c = 0x202F \<or> c = 0x205F \<or> c = 0x3000"

definition py_strip :: "pystr \<Rightarrow> pystr" where
  "py_strip s = rev (dropWhile is_space (rev (dropWhile is_space s)))"

text \<open>
  \<^verbatim>\<open>open(path, "r")\<close> reads in text mode with universal newlines: \<^verbatim>\<open>\r\n\<close> and a lone
  \<^verbatim>\<open>\r\<close> arrive as \<^verbatim>\<open>\n\<close>. \<^verbatim>\<open>readlines()\<close> cuts the text after every \<^verbatim>\<open>\n\<close> and keeps
  the line ends.
\<close>

fun translate_newlines :: "pystr \<Rightarrow> pystr" where
  "translate_newlines [] = []"
| "translate_newlines [c] = [if c = 13 then 10 else c]"
| "translate_newlines (c # d # ds) =
     (if c = 13 \<and> d = 10 then 10 # translate_newlines ds
      else if c = 13 then 10 # translate_newlines (d # ds)
      else c # translate_newlines (d # ds))"

fun split_lines :: "pystr \<Rightarrow> pystr list" where
  "split_lines [] = []"
| "split_lines (c # cs) =
     (if c = 10 then [10] # split_lines cs
      else (case split_lines cs of
              l # ls \<Rightarrow> (c # l) # ls
            | [] \<Rightarrow> [[c]]))"

definition readlines :: "pystr \<Rightarrow> pystr list" where
  "readlines content = split_lines (translate_newlines content)"

text \<open>
  The two dicts of the script, \<^verbatim>\<open>dashboards_references\<close> and
  \<^verbatim>\<open>references_dashboards\<close>, both from a name to a list of names.
\<close>

type_synonym xref = "(pystr \<times> pystr list) list"

text \<open>Lines 20 to 23: the dashboard and the references of a line. \<^verbatim>\<open>fields[1]\<close> raises
  \<^verbatim>\<open>IndexError\<close> for a line without a colon.\<close>

definition parse_line :: "pystr \<Rightarrow> py_error + (pystr \<times> pystr list)" where
  "parse_line line =
     (case py_split 58 line of
        dashboard # field1 # others \<Rightarrow> Inr (dashboard, map py_strip (py_split 44 field1))
      | _ \<Rightarrow> Inl IndexError)"

text \<open>Lines 28 to 31, for one reference \<open>r\<close>.\<close>

definition add_reference :: "pystr \<Rightarrow> pystr \<Rightarrow> xref \<Rightarrow> xref" where
  "add_reference dashboard r references_dashboards =
     (case map_of references_dashboards r of
        Some ds \<Rightarrow> AList.update r (ds @ [dashboard]) references_dashboards
      | None \<Rightarrow> AList.update r [dashboard] references_dashboards)"

text \<open>Lines 25 to 31, for one parsed line.\<close>

definition add_entry :: "pystr \<times> pystr list \<Rightarrow> xref \<times> xref \<Rightarrow> xref \<times> xref" where
  "add_entry entry dicts =
     (AList.update (fst entry) (snd entry) (fst dicts),
      fold (add_reference (fst entry)) (snd entry) (snd dicts))"

text \<open>Lines 19 to 31: the loop over the lines.\<close>

fun process_lines :: "xref \<times> xref \<Rightarrow> pystr list \<Rightarrow> py_error + xref \<times> xref" where
  "process_lines dicts [] = Inr dicts"
| "process_lines dicts (line # lines) =
     and_then (parse_line line) (\<lambda>entry. process_lines (add_entry entry dicts) lines)"

text \<open>
  What the script prints, one item per \<^verbatim>\<open>print\<close> call: a list of names (line 34 or
  37), a reference with its number (\<^verbatim>\<open>f" - {ref}: {number}"\<close>), a dashboard header
  (\<^verbatim>\<open>f"Dashboard {dashboard}:"\<close>) or an empty line. A run is what it printed and the
  exception that ended it, if one did.
\<close>

datatype printed =
    PrintList "pystr list"
  | PrintCount pystr nat
  | PrintDashboard pystr
  | PrintBlank

type_synonym run = "printed list \<times> py_error option"

definition then_run :: "'a list \<times> 'e option \<Rightarrow> 'a list \<times> 'e option \<Rightarrow> 'a list \<times> 'e option" where
  "then_run a b = (case snd a of Some e \<Rightarrow> a | None \<Rightarrow> (fst a @ fst b, snd b))"

text \<open>Lines 38 to 40 (and 47 to 49): one count per reference of the dashboard.\<close>

fun print_counts :: "xref \<Rightarrow> pystr list \<Rightarrow> run" where
  "print_counts references_dashboards [] = ([], None)"
| "print_counts references_dashboards (ref # refs) =
     (case map_of references_dashboards ref of
        None \<Rightarrow> ([], Some (KeyError ref))
      | Some ds \<Rightarrow>
          then_run ([PrintCount ref (length ds)], None) (print_counts references_dashboards refs))"

text \<open>Lines 45 to 50: the report for every dashboard, in the dict's order.\<close>

fun print_all :: "xref \<Rightarrow> xref \<Rightarrow> pystr list \<Rightarrow> run" where
  "print_all dashboards_references references_dashboards [] = ([], None)"
| "print_all dashboards_references references_dashboards (dashboard # others) =
     then_run ([PrintDashboard dashboard], None)
    (then_run (case map_of dashboards_references dashboard of
                 None \<Rightarrow> ([], Some (KeyError dashboard))
               | Some refs \<Rightarrow> print_counts references_dashboards refs)
    (then_run ([PrintBlank], None)
       (print_all dashboards_references references_dashboards others)))"

record xref_args =
  arg_reference :: "pystr option"
  arg_dashboard :: "pystr option"
  arg_all_dashboards :: bool

text \<open>\<^verbatim>\<open>if args.reference:\<close> holds for an option that was given and is not empty.\<close>

fun given :: "pystr option \<Rightarrow> bool" where
  "given None = False"
| "given (Some s) = (s \<noteq> [])"

text \<open>
  Lines 13 to 50. \<open>file\<close> is the text of the file named by \<^verbatim>\<open>--list\<close>, \<open>None\<close> when it
  cannot be opened.
\<close>

definition xref_script :: "xref_args \<Rightarrow> pystr option \<Rightarrow> run" where
  "xref_script args file =
     (case file of
        None \<Rightarrow> ([], Some OSError)
      | Some content \<Rightarrow>
          (case process_lines ([], []) (readlines content) of
             Inl e \<Rightarrow> ([], Some e)
           | Inr (dashboards_references, references_dashboards) \<Rightarrow>
               then_run
                 (if given (arg_reference args) then
                    (case map_of references_dashboards (the (arg_reference args)) of
                       None \<Rightarrow> ([], Some (KeyError (the (arg_reference args))))
                     | Some ds \<Rightarrow> ([PrintList ds], None))
                  else ([], None))
              (then_run
                 (if given (arg_dashboard args) then
                    (case map_of dashboards_references (the (arg_dashboard args)) of
                       None \<Rightarrow> ([], Some (KeyError (the (arg_dashboard args))))
                     | Some refs \<Rightarrow>
                         then_run ([PrintList refs], None) (print_counts references_dashboards refs))
                  else ([], None))
              (then_run ([PrintBlank], None)
                 (if arg_all_dashboards args then
                    print_all dashboards_references references_dashboards
                      (map fst dashboards_references)
                  else ([], None))))))"

text \<open>
  The dashboards appended to the list of reference \<open>r\<close> by the parsed lines \<open>entries\<close>:
  each line's dashboard, once for every time the line lists \<open>r\<close>, in the order of the
  lines.
\<close>

definition listings :: "(pystr \<times> pystr list) list \<Rightarrow> pystr \<Rightarrow> pystr list" where
  "listings entries r = concat (map (\<lambda>e. replicate (count_list (snd e) r) (fst e)) entries)"

section \<open>The benchmark lister: scripts/list\_benchmark\_packages.py\<close>

text \<open>
  The file system is a tree: a node is a directory with its named entries, in the
  order \<^verbatim>\<open>os.listdir\<close> returns them, or something that is not a directory. A process
  sees it from its working directory, given with its ancestors: the working directory
  first, the root last.
\<close>

datatype fs_node = File | Dir "(pystr \<times> fs_node) list"

text \<open>
  Path resolution, one component at a time: an empty component and \<^verbatim>\<open>.\<close> stay, \<^verbatim>\<open>..\<close>
  goes to the parent (the root is its own parent), a name enters the entry of that
  name. Only a directory can be left by a further component.
\<close>

fun walk :: "fs_node list \<Rightarrow> pystr list \<Rightarrow> fs_node list option" where
  "walk stack [] = Some stack"
| "walk [] (c # cs) = None"
| "walk (File # parents) (c # cs) = None"
| "walk (Dir entries # parents) (c # cs) =
     (if c = [] \<or> c = U ''.'' then walk (Dir entries # parents) cs
      else if c = U ''..'' then walk (if parents = [] then [Dir entries] else parents) cs
      else (case map_of entries c of
              None \<Rightarrow> None
            | Some child \<Rightarrow> walk (child # Dir entries # parents) cs))"

definition resolve :: "fs_node list \<Rightarrow> pystr \<Rightarrow> fs_node option" where
  "resolve cwd path =
     (if path = [] \<or> cwd = [] then None
      else (case walk (if hd path = 47 then [last cwd] else cwd) (py_split 47 path) of
              Some (node # parents) \<Rightarrow> Some node
            | _ \<Rightarrow> None))"

fun is_dir_node :: "fs_node \<Rightarrow> bool" where
  "is_dir_node (Dir entries) = True"
| "is_dir_node File = False"

definition os_path_isdir :: "fs_node list \<Rightarrow> pystr \<Rightarrow> bool" where
  "os_path_isdir cwd path = (case resolve cwd path of Some node \<Rightarrow> is_dir_node node | None \<Rightarrow> False)"

definition os_listdir :: "fs_node list \<Rightarrow> pystr \<Rightarrow> py_error + pystr list" where
  "os_listdir cwd path =
     (case resolve cwd path of
        Some (Dir entries) \<Rightarrow> Inr (map fst entries)
      | _ \<Rightarrow> Inl OSError)"

text \<open>\<^verbatim>\<open>os.path.join(a, *p)\<close> of \<^verbatim>\<open>posixpath\<close>: a component that starts with a slash
  replaces what came before; otherwise it is appended, after a slash when the path so
  far is not empty and does not end with one.\<close>

definition join_step :: "pystr \<Rightarrow> pystr \<Rightarrow> pystr" where
  "join_step path b =
     (if b \<noteq> [] \<and> hd b = 47 then b
      else if path = [] \<or> last path = 47 then path @ b
      else path @ [47] @ b)"

definition os_path_join :: "pystr \<Rightarrow> pystr list \<Rightarrow> pystr" where
  "os_path_join a p = foldl join_step a p"

text \<open>Lines 5 and 6.\<close>

definition packages_path :: pystr where
  "packages_path = os_path_join (U ''../../integrations'') [U ''packages'']"

text \<open>Lines 9 to 24, for the entries of the packages directory that remain; the result
  is the lines printed and the exception that ended the run, if one did.\<close>

fun list_packages :: "fs_node list \<Rightarrow> pystr list \<Rightarrow> pystr list \<times> py_error option" where
  "list_packages cwd [] = ([], None)"
| "list_packages cwd (package_path # others) =
     (let rally_path =
        os_path_join packages_path [package_path, U ''_dev'', U ''benchmark'', U ''rally'']
      in
      if os_path_isdir cwd rally_path then
        then_run ([U ''Package: '' @ package_path], None)
       (then_run
          (case os_listdir cwd rally_path of
             Inl e \<Rightarrow> ([], Some e)
           | Inr benchmarks \<Rightarrow>
               (map (\<lambda>b. U ''* '' @ b @ U [])
                  (filter (\<lambda>b. os_path_isdir cwd (os_path_join rally_path [b])) benchmarks),
                None))
       (then_run ([[]], None) (list_packages cwd others)))
      else list_packages cwd others)"

definition list_benchmark_packages :: "fs_node list \<Rightarrow> pystr list \<times> py_error option" where
  "list_benchmark_packages cwd =
     (case os_listdir cwd packages_path of
        Inl e \<Rightarrow> ([], Some e)
      | Inr package_paths \<Rightarrow> list_packages cwd package_paths)"

subsection \<open>What the lister is to print\<close>

text \<open>The node reached from a node by a sequence of entry names.\<close>

fun subdir :: "fs_node \<Rightarrow> pystr list \<Rightarrow> fs_node option" where
  "subdir node [] = Some node"
| "subdir File (c # cs) = None"
| "subdir (Dir entries) (c # cs) =
     (case map_of entries c of None \<Rightarrow> None | Some child \<Rightarrow> subdir child cs)"

text \<open>
  The block of one package: nothing unless the package has the directory
  \<^verbatim>\<open>_dev/benchmark/rally\<close>; then the package name, the names of the entries of that
  directory that are directories, and an empty line.
\<close>

definition benchmark_block :: "pystr \<times> fs_node \<Rightarrow> pystr list" where
  "benchmark_block package =
     (case subdir (snd package) [U ''_dev'', U ''benchmark'', U ''rally''] of
        Some (Dir benchmarks) \<Rightarrow>
          [U ''Package: '' @ fst package] @
          map (\<lambda>b. U ''* '' @ fst b) (filter (\<lambda>b. is_dir_node (snd b)) benchmarks) @
          [[]]
      | _ \<Rightarrow> [])"

text \<open>The names a directory can hold: not empty, not \<^verbatim>\<open>.\<close> or \<^verbatim>\<open>..\<close>, without a slash;
  and no two entries of a directory share a name.\<close>

definition valid_name :: "pystr \<Rightarrow> bool" where
  "valid_name n \<longleftrightarrow> n \<noteq> [] \<and> n \<noteq> U ''.'' \<and> n \<noteq> U ''..'' \<and> 47 \<notin> set n"

fun wf_fs :: "fs_node \<Rightarrow> bool" where
  "wf_fs File = True"
| "wf_fs (Dir entries) =
     (distinct (map fst entries) \<and> (\<forall>e \<in> set entries. valid_name (fst e) \<and> wf_fs (snd e)))"

text \<open>A sample checkout: the working directory is \<^verbatim>\<open>elastic-package/scripts\<close>, beside
  it the integrations repository with three entries in \<^verbatim>\<open>packages\<close>.\<close>

definition example_root :: fs_node where
  "example_root =
     Dir [(U ''elastic-package'', Dir [(U ''scripts'', Dir [])]),
          (U ''integrations'', Dir [(U ''packages'', Dir
             [(U ''nginx'', Dir [(U ''_dev'', Dir [(U ''benchmark'', Dir [(U ''rally'', Dir
                 [(U ''logs'', Dir []), (U ''README.md'', File), (U ''metrics'', Dir [])])])])]),
              (U ''apache'', Dir [(U ''_dev'', Dir [(U ''build'', Dir [])])]),
              (U ''notes.txt'', File)])])]"

definition example_cwd :: "fs_node list" where
  "example_cwd =
     [Dir [], Dir [(U ''scripts'', Dir [])], example_root]"

section \<open>The JSON library: json.loads and json.dumps\<close>

text \<open>
  The fetcher decodes the attributes with \<^verbatim>\<open>json.loads\<close> and \<^verbatim>\<open>main\<close> serializes the
  result with \<^verbatim>\<open>json.dumps(result, indent=2, default=str)\<close>. Both are library code; this
  section models them after the decoder and encoder of CPython's \<^verbatim>\<open>json\<close> package
  (\<^verbatim>\<open>json/decoder.py\<close>, \<^verbatim>\<open>json/scanner.py\<close>, \<^verbatim>\<open>json/encoder.py\<close> and their C
  counterparts), with their default arguments. Two conversions stay parameters:
  \<open>float_of\<close> is \<^verbatim>\<open>float(literal)\<close> on the text of a number with a fraction or an exponent,
  and \<open>float_repr\<close> is \<^verbatim>\<open>float.__repr__\<close>. The interpreter's limits (recursion depth,
  digits of an integer) are not modelled.
\<close>

subsection \<open>Decoding\<close>

definition is_json_space :: "nat \<Rightarrow> bool" where
  "is_json_space c \<longleftrightarrow> c = 32 \<or> c = 9 \<or> c = 10 \<or> c = 13"

definition skip_space :: "pystr \<Rightarrow> pystr" where
  "skip_space s = dropWhile is_json_space s"

definition is_digit :: "nat \<Rightarrow> bool" where
  "is_digit c \<longleftrightarrow> 48 \<le> c \<and> c \<le> 57"

text \<open>A hexadecimal digit, in either case.\<close>

definition hex_value :: "nat \<Rightarrow> nat option" where
  "hex_value c =
     (if 48 \<le> c \<and> c \<le> 57 then Some (c - 48)
      else if 97 \<le> c \<and> c \<le> 102 then Some (c - 87)
      else if 65 \<le> c \<and> c \<le> 70 then Some (c - 55)
      else None)"

text \<open>\<^verbatim>\<open>_decode_uXXXX\<close>: the four hexadecimal digits after \<^verbatim>\<open>\u\<close>.\<close>

fun decode_uXXXX :: "pystr \<Rightarrow> (nat \<times> pystr) option" where
  "decode_uXXXX (a # b # c # d # rest) =
     (case hex_value a of None \<Rightarrow> None | Some x \<Rightarrow>
      case hex_value b of None \<Rightarrow> None | Some y \<Rightarrow>
      case hex_value c of None \<Rightarrow> None | Some z \<Rightarrow>
      case hex_value d of None \<Rightarrow> None | Some w \<Rightarrow>
        Some (((x * 16 + y) * 16 + z) * 16 + w, rest))"
| "decode_uXXXX s = None"

text \<open>The table \<^verbatim>\<open>BACKSLASH\<close> of the escapes of one character.\<close>

definition unescape :: "nat \<Rightarrow> nat option" where
  "unescape e =
     (if e = 34 then Some 34
      else if e = 92 then Some 92
      else if e = 47 then Some 47
      else if e = 98 then Some 8
      else if e = 102 then Some 12
      else if e = 110 then Some 10
      else if e = 114 then Some 13
      else if e = 116 then Some 9
      else None)"

definition append_char :: "nat \<Rightarrow> (pystr \<times> pystr) option \<Rightarrow> (pystr \<times> pystr) option" where
  "append_char ch res = (case res of None \<Rightarrow> None | Some (str, rest) \<Rightarrow> Some (ch # str, rest))"

text \<open>
  \<^verbatim>\<open>scanstring\<close> in strict mode, from the character after the opening quote: the
  decoded string and the text after the closing quote, or \<open>None\<close> for an unterminated
  string, a control character or an invalid escape. A \<^verbatim>\<open>\uXXXX\<close> escape of a high
  surrogate joins with a \<^verbatim>\<open>\uXXXX\<close> escape of a low surrogate right after it; characters
  that are not escaped are taken as they are.
\<close>

function scanstring :: "pystr \<Rightarrow> (pystr \<times> pystr) option" where
  "scanstring [] = None"
| "scanstring (c # cs) =
     (if c = 34 then Some ([], cs)
      else if c = 92 then
        (case cs of
           [] \<Rightarrow> None
         | esc # es \<Rightarrow>
             if esc \<noteq> 117 then
               (case unescape esc of
                  None \<Rightarrow> None
                | Some ch \<Rightarrow> append_char ch (scanstring es))
             else
               (case decode_uXXXX es of
                  None \<Rightarrow> None
                | Some (uni, r) \<Rightarrow>
                    if 0xD800 \<le> uni \<and> uni \<le> 0xDBFF \<and> starts_with [92, 117] r then
                      (case decode_uXXXX (drop 2 r) of
                         None \<Rightarrow> None
                       | Some (uni2, r2) \<Rightarrow>
                           if 0xDC00 \<le> uni2 \<and> uni2 \<le> 0xDFFF then
                             append_char (0x10000 + ((uni - 0xD800) * 1024 + (uni2 - 0xDC00)))
                               (scanstring r2)
                           else append_char uni (scanstring r))
                    else append_char uni (scanstring r)))
      else if c \<le> 31 then None
      else append_char c (scanstring cs))"
  by pat_completeness auto
termination
proof -
  have shorter: "length r < length s" if "decode_uXXXX s = Some (u, r)" for s u r
    using that by (induction s rule: decode_uXXXX.induct) (auto split: option.splits)
  show ?thesis
  proof (relation "measure length")
    show "wf (measure length)" by simp
  next
    fix c cs esc es ch
    assume "cs = esc # es"
    then show "(es, c # cs) \<in> measure length" by simp
  next
    fix c cs esc es x uni r uni2 r2 y
    assume a: "cs = esc # es" "decode_uXXXX es = Some x" "(uni, r) = x"
      "decode_uXXXX (drop 2 r) = Some y" "(uni2, r2) = y"
    from a(2,3) have "length r < length es" by (auto dest: shorter)
    moreover from a(4,5) have "length r2 < length (drop 2 r)" by (auto dest: shorter)
    ultimately show "(r2, c # cs) \<in> measure length" using a(1) by simp
  next
    fix c cs esc es x uni r uni2 r2 y
    assume a: "cs = esc # es" "decode_uXXXX es = Some x" "(uni, r) = x"
    from a(2,3) have "length r < length es" by (auto dest: shorter)
    then show "(r, c # cs) \<in> measure length" using a(1) by simp
  next
    fix c cs esc es x uni r
    assume a: "cs = esc # es" "decode_uXXXX es = Some x" "(uni, r) = x"
    from a(2,3) have "length r < length es" by (auto dest: shorter)
    then show "(r, c # cs) \<in> measure length" using a(1) by simp
  next
    fix c :: nat and cs :: pystr
    show "(cs, c # cs) \<in> measure length" by simp
  qed
qed

text \<open>
  \<^verbatim>\<open>_match_number\<close>: an optional minus sign, the integer digits (a single 0, or a digit
  from 1 to 9 and all the digits after it), a fraction when a dot and a digit follow,
  an exponent when \<^verbatim>\<open>e\<close> or \<^verbatim>\<open>E\<close>, an optional sign and a digit follow. The result is
  the text of the number, whether it has a fraction or an exponent, and the text after
  it.
\<close>

definition scan_fraction :: "pystr \<Rightarrow> pystr \<times> pystr" where
  "scan_fraction s =
     (case s of
        p # d # ds \<Rightarrow>
          if p = 46 \<and> is_digit d then (p # d # takeWhile is_digit ds, dropWhile is_digit ds)
          else ([], s)
      | _ \<Rightarrow> ([], s))"

definition scan_exponent :: "pystr \<Rightarrow> pystr \<times> pystr" where
  "scan_exponent s =
     (case s of
        [] \<Rightarrow> ([], s)
      | e # es \<Rightarrow>
          if e = 101 \<or> e = 69 then
            (let signed = (case es of [] \<Rightarrow> False | g # gs \<Rightarrow> g = 43 \<or> g = 45);
                 sign = (if signed then [hd es] else []);
                 after_sign = (if signed then tl es else es)
             in if takeWhile is_digit after_sign \<noteq> [] then
                  (e # sign @ takeWhile is_digit after_sign, dropWhile is_digit after_sign)
                else ([], s))
          else ([], s))"

definition after_integer :: "pystr \<Rightarrow> pystr \<Rightarrow> (pystr \<times> bool \<times> pystr) option" where
  "after_integer integer s =
     (let (frac, s1) = scan_fraction s; (ex, s2) = scan_exponent s1
      in Some (integer @ frac @ ex, frac \<noteq> [] \<or> ex \<noteq> [], s2))"

definition match_number :: "pystr \<Rightarrow> (pystr \<times> bool \<times> pystr) option" where
  "match_number s =
     (let negative = (case s of [] \<Rightarrow> False | c # cs \<Rightarrow> c = 45);
          sign = (if negative then [45] else []);
          s1 = (if negative then tl s else s)
      in case s1 of
           [] \<Rightarrow> None
         | d # ds \<Rightarrow>
             if 49 \<le> d \<and> d \<le> 57 then
               after_integer (sign @ d # takeWhile is_digit ds) (dropWhile is_digit ds)
             else if d = 48 then after_integer (sign @ [48]) ds
             else None)"

text \<open>\<^verbatim>\<open>int(literal)\<close> for the text of an integer.\<close>

definition digits_value :: "pystr \<Rightarrow> nat" where
  "digits_value ds = foldl (\<lambda>a d. 10 * a + (d - 48)) 0 ds"

definition int_of_literal :: "pystr \<Rightarrow> int" where
  "int_of_literal l =
     (case l of
        [] \<Rightarrow> 0
      | c # cs \<Rightarrow> if c = 45 then - int (digits_value cs) else int (digits_value l))"

text \<open>The bits of \<^verbatim>\<open>float('nan')\<close>, \<^verbatim>\<open>float('inf')\<close> and \<^verbatim>\<open>float('-inf')\<close>.\<close>

definition nan_bits :: "64 word" where
  "nan_bits = 0x7FF8000000000000"

definition inf_bits :: "64 word" where
  "inf_bits = 0x7FF0000000000000"

definition neg_inf_bits :: "64 word" where
  "neg_inf_bits = 0xFFF0000000000000"

text \<open>
  The result of a scan: a value and the text after it, a syntax error (the
  \<^verbatim>\<open>JSONDecodeError\<close> of the decoder, whatever its message), or the end of the fuel
  that bounds the recursion of the model.
\<close>

datatype 'a scanned = Scanned 'a pystr | Invalid | Exhausted

text \<open>
  \<^verbatim>\<open>scan_once\<close>, \<^verbatim>\<open>JSONArray\<close> and \<^verbatim>\<open>JSONObject\<close>. \<open>scan_once\<close> reads one value at the start
  of the text. \<open>parse_array\<close> and \<open>parse_object\<close> read from the first element (from the
  first key), with the elements read so far; a key read again replaces its value in
  place, as \<^verbatim>\<open>dict\<close> does.
\<close>

fun scan_once :: "(pystr \<Rightarrow> 64 word) \<Rightarrow> nat \<Rightarrow> pystr \<Rightarrow> json scanned"
  and parse_array :: "(pystr \<Rightarrow> 64 word) \<Rightarrow> nat \<Rightarrow> pystr \<Rightarrow> json list \<Rightarrow> json scanned"
  and parse_object :: "(pystr \<Rightarrow> 64 word) \<Rightarrow> nat \<Rightarrow> pystr \<Rightarrow> (pystr \<times> json) list \<Rightarrow> json scanned"
where
  "scan_once float_of 0 s = Exhausted"
| "scan_once float_of (Suc n) s =
     (case s of
        [] \<Rightarrow> Invalid
      | c # cs \<Rightarrow>
          if c = 34 then
            (case scanstring cs of
               None \<Rightarrow> Invalid
             | Some (str, rest) \<Rightarrow> Scanned (JStr str) rest)
          else if c = 123 then
            (case skip_space cs of
               [] \<Rightarrow> parse_object float_of n [] []
             | d # ds \<Rightarrow>
                 if d = 125 then Scanned (JDict []) ds
                 else parse_object float_of n (d # ds) [])
          else if c = 91 then
            (case skip_space cs of
               [] \<Rightarrow> parse_array float_of n [] []
             | d # ds \<Rightarrow>
                 if d = 93 then Scanned (JList []) ds
                 else parse_array float_of n (d # ds) [])
          else if starts_with (U ''null'') s then Scanned JNull (drop 4 s)
          else if starts_with (U ''true'') s then Scanned (JBool True) (drop 4 s)
          else if starts_with (U ''false'') s then Scanned (JBool False) (drop 5 s)
          else if starts_with (U ''NaN'') s then Scanned (JFloat nan_bits) (drop 3 s)
          else if starts_with (U ''Infinity'') s then Scanned (JFloat inf_bits) (drop 8 s)
          else if starts_with (U ''-Infinity'') s then Scanned (JFloat neg_inf_bits) (drop 9 s)
          else
            (case match_number s of
               None \<Rightarrow> Invalid
             | Some (literal, is_float, rest) \<Rightarrow>
                 if is_float then Scanned (JFloat (float_of literal)) rest
                 else Scanned (JInt (int_of_literal literal)) rest))"
| "parse_array float_of 0 s acc = Exhausted"
| "parse_array float_of (Suc n) s acc =
     (case scan_once float_of n s of
        Invalid \<Rightarrow> Invalid
      | Exhausted \<Rightarrow> Exhausted
      | Scanned v rest \<Rightarrow>
          (case skip_space rest of
             [] \<Rightarrow> Invalid
           | d # ds \<Rightarrow>
               if d = 93 then Scanned (JList (acc @ [v])) ds
               else if d = 44 then parse_array float_of n (skip_space ds) (acc @ [v])
               else Invalid))"
| "parse_object float_of 0 s acc = Exhausted"
| "parse_object float_of (Suc n) s acc =
     (case s of
        [] \<Rightarrow> Invalid
      | q # qs \<Rightarrow>
          if q \<noteq> 34 then Invalid
          else
            (case scanstring qs of
               None \<Rightarrow> Invalid
             | Some (k, rest) \<Rightarrow>
                 (case skip_space rest of
                    [] \<Rightarrow> Invalid
                  | colon # r1 \<Rightarrow>
                      if colon \<noteq> 58 then Invalid
                      else
                        (case scan_once float_of n (skip_space r1) of
                           Invalid \<Rightarrow> Invalid
                         | Exhausted \<Rightarrow> Exhausted
                         | Scanned v r2 \<Rightarrow>
                             (case skip_space r2 of
                                [] \<Rightarrow> Invalid
                              | d # ds \<Rightarrow>
                                  if d = 125 then Scanned (JDict (AList.update k v acc)) ds
                                  else if d = 44 then
                                    parse_object float_of n (skip_space ds) (AList.update k v acc)
                                  else Invalid)))))"

text \<open>
  \<^verbatim>\<open>json.loads(s)\<close> for a string: a byte order mark is refused, white space may stand
  before and after the value, and nothing else may follow it. The fuel is enough for
  every text (lemma \<open>json_loads_total\<close> below), so \<^verbatim>\<open>RecursionError\<close> is never the
  result.
\<close>

definition json_loads :: "(pystr \<Rightarrow> 64 word) \<Rightarrow> decoder" where
  "json_loads float_of s =
     (if starts_with [0xFEFF] s then Inl JSONDecodeError
      else
        (case scan_once float_of (2 * length s + 1) (skip_space s) of
           Scanned v rest \<Rightarrow> if skip_space rest = [] then Inr v else Inl JSONDecodeError
         | Invalid \<Rightarrow> Inl JSONDecodeError
         | Exhausted \<Rightarrow> Inl RecursionError))"

text \<open>Two attributes texts: \<^verbatim>\<open>[1]\<close>, and \<^verbatim>\<open>{"a": 1}\<close> by its code points.\<close>

definition list_text :: pystr where
  "list_text = U ''[1]''"

definition object_text :: pystr where
  "object_text = [123, 34, 97, 34, 58, 32, 49, 125]"

subsection \<open>Encoding\<close>

text \<open>\<^verbatim>\<open>int.__repr__\<close>: the decimal digits, after a minus sign for a negative number.\<close>

fun nat_str :: "nat \<Rightarrow> pystr" where
  "nat_str n = (if n < 10 then [48 + n] else nat_str (n div 10) @ [48 + n mod 10])"

declare nat_str.simps [simp del]

definition int_str :: "int \<Rightarrow> pystr" where
  "int_str i = (if i < 0 then 45 # nat_str (nat (- i)) else nat_str (nat i))"

text \<open>\<^verbatim>\<open>floatstr\<close>: the three special values by name, every other float by its repr.\<close>

definition is_nan :: "64 word \<Rightarrow> bool" where
  "is_nan w \<longleftrightarrow> take_bit 63 (unat w) > 0x7FF0000000000000"

definition float_str :: "(64 word \<Rightarrow> pystr) \<Rightarrow> 64 word \<Rightarrow> pystr" where
  "float_str float_repr w =
     (if is_nan w then U ''NaN''
      else if w = inf_bits then U ''Infinity''
      else if w = neg_inf_bits then U ''-Infinity''
      else float_repr w)"

text \<open>
  \<^verbatim>\<open>encode_basestring_ascii\<close>: the quote, the backslash and five control characters have
  an escape of their own, the printable ASCII characters stand for themselves, and every
  other character is written \<^verbatim>\<open>\uXXXX\<close>, as a surrogate pair above the basic plane.
\<close>

definition hex_digit :: "nat \<Rightarrow> nat" where
  "hex_digit d = (if d < 10 then 48 + d else 87 + d)"

definition hex4 :: "nat \<Rightarrow> pystr" where
  "hex4 n =
     [hex_digit (n div 4096 mod 16), hex_digit (n div 256 mod 16),
      hex_digit (n div 16 mod 16), hex_digit (n mod 16)]"

definition escape_char :: "nat \<Rightarrow> pystr" where
  "escape_char c =
     (if c = 34 then [92, 34]
      else if c = 92 then [92, 92]
      else if c = 10 then [92, 110]
      else if c = 13 then [92, 114]
      else if c = 9 then [92, 116]
      else if c = 8 then [92, 98]
      else if c = 12 then [92, 102]
      else if 32 \<le> c \<and> c \<le> 126 then [c]
      else if c < 0x10000 then [92, 117] @ hex4 c
      else [92, 117] @ hex4 (0xD800 + (c - 0x10000) div 1024 mod 1024) @
           [92, 117] @ hex4 (0xDC00 + (c - 0x10000) mod 1024))"

definition encode_string :: "pystr \<Rightarrow> pystr" where
  "encode_string s = [34] @ concat (map escape_char s) @ [34]"

text \<open>The separators of \<^verbatim>\<open>indent=2\<close>: a new line and two spaces for every level.\<close>

definition newline_indent :: "nat \<Rightarrow> pystr" where
  "newline_indent level = 10 # replicate (2 * level) 32"

fun join_with :: "'a list \<Rightarrow> 'a list list \<Rightarrow> 'a list" where
  "join_with sep [] = []"
| "join_with sep [x] = x"
| "join_with sep (x # y # ys) = x @ sep @ join_with sep (y # ys)"

text \<open>\<^verbatim>\<open>_iterencode\<close> at an indentation level, for the values of the model (the keys of a
  dict are strings).\<close>

fun encode :: "(64 word \<Rightarrow> pystr) \<Rightarrow> nat \<Rightarrow> json \<Rightarrow> pystr" where
  "encode float_repr level JNull = U ''null''"
| "encode float_repr level (JBool b) = (if b then U ''true'' else U ''false'')"
| "encode float_repr level (JInt i) = int_str i"
| "encode float_repr level (JFloat w) = float_str float_repr w"
| "encode float_repr level (JStr s) = encode_string s"
| "encode float_repr level (JList xs) =
     (if xs = [] then U ''[]''
      else [91] @ newline_indent (Suc level) @
           join_with (44 # newline_indent (Suc level)) (map (encode float_repr (Suc level)) xs) @
           newline_indent level @ [93])"
| "encode float_repr level (JDict kvs) =
     (if kvs = [] then U ''{}''
      else [123] @ newline_indent (Suc level) @
           join_with (44 # newline_indent (Suc level))
             (map (\<lambda>kv. encode_string (fst kv) @ [58, 32] @ encode float_repr (Suc level) (snd kv)) kvs) @
           newline_indent level @ [125])"

definition json_dumps :: "(64 word \<Rightarrow> pystr) \<Rightarrow> json \<Rightarrow> pystr" where
  "json_dumps float_repr v = encode float_repr 0 v"

subsection \<open>Values that survive a round trip\<close>

text \<open>
  A high surrogate is a code point from D800 to DBFF, a low surrogate one from DC00 to
  DFFF. \<open>no_joining s\<close>: no high surrogate of \<open>s\<close> stands right before a low surrogate.
  \<open>code_points s\<close>: every element of \<open>s\<close> is a code point, as in every \<^verbatim>\<open>str\<close>.
\<close>

definition high_surrogate :: "nat \<Rightarrow> bool" where
  "high_surrogate c \<longleftrightarrow> 0xD800 \<le> c \<and> c \<le> 0xDBFF"

definition low_surrogate :: "nat \<Rightarrow> bool" where
  "low_surrogate c \<longleftrightarrow> 0xDC00 \<le> c \<and> c \<le> 0xDFFF"

fun no_joining :: "pystr \<Rightarrow> bool" where
  "no_joining (a # b # cs) = (\<not> (high_surrogate a \<and> low_surrogate b) \<and> no_joining (b # cs))"
| "no_joining cs = True"

definition code_points :: "pystr \<Rightarrow> bool" where
  "code_points s = list_all (\<lambda>c. c < 0x110000) s"

text \<open>
  What the round trip asks of the two float conversions at a float \<open>w\<close>: a NaN is the NaN
  of \<^verbatim>\<open>float('nan')\<close>; the repr of a finite float is a JSON number with a fraction or an
  exponent, and \<^verbatim>\<open>float\<close> reads it back as \<open>w\<close>.
\<close>

definition float_round_trips :: "(pystr \<Rightarrow> 64 word) \<Rightarrow> (64 word \<Rightarrow> pystr) \<Rightarrow> 64 word \<Rightarrow> bool" where
  "float_round_trips float_of float_repr w =
     (if is_nan w then w = nan_bits
      else if w = inf_bits \<or> w = neg_inf_bits then True
      else match_number (float_repr w) = Some (float_repr w, True, []) \<and>
           float_of (float_repr w) = w)"

text \<open>
  \<open>round_trippable\<close>: the keys of every dict are distinct, every string and key is made of
  code points and joins no surrogates, and every float meets \<open>float_round_trips\<close>.
\<close>

fun round_trippable :: "(pystr \<Rightarrow> 64 word) \<Rightarrow> (64 word \<Rightarrow> pystr) \<Rightarrow> json \<Rightarrow> bool" where
  "round_trippable float_of float_repr (JStr s) = (code_points s \<and> no_joining s)"
| "round_trippable float_of float_repr (JFloat w) = float_round_trips float_of float_repr w"
| "round_trippable float_of float_repr (JList xs) = list_all (round_trippable float_of float_repr) xs"
| "round_trippable float_of float_repr (JDict kvs) =
     (distinct (map fst kvs) \<and>
      list_all (\<lambda>kv. code_points (fst kv) \<and> no_joining (fst kv) \<and>
                round_trippable float_of float_repr (snd kv)) kvs)"
| "round_trippable float_of float_repr v = True"

subsection \<open>Notions for the proofs of the round trip\<close>

text \<open>A text is safe after a high surrogate when it does not go on with the escape of a
  low surrogate.\<close>

definition safe :: "pystr \<Rightarrow> bool" where
  "safe t \<longleftrightarrow>
     (starts_with [92, 117] t \<longrightarrow>
        (case decode_uXXXX (drop 2 t) of
           Some (u, r) \<Rightarrow> \<not> low_surrogate u
         | None \<Rightarrow> False))"

text \<open>A text stops a number when it is empty or starts with a character that is not a
  digit, a dot or an exponent mark.\<close>

definition num_stop :: "pystr \<Rightarrow> bool" where
  "num_stop rest =
     (case rest of [] \<Rightarrow> True | c # cs \<Rightarrow> \<not> is_digit c \<and> c \<noteq> 46 \<and> c \<noteq> 101 \<and> c \<noteq> 69)"

text \<open>The first character of an encoded value: never white space, a closing bracket, a
  comma or a byte order mark.\<close>

definition starts_value :: "pystr \<Rightarrow> bool" where
  "starts_value t =
     (case t of
        [] \<Rightarrow> False
      | c # cs \<Rightarrow> \<not> is_json_space c \<and> c \<noteq> 93 \<and> c \<noteq> 125 \<and> c \<noteq> 44 \<and> c \<noteq> 0xFEFF)"

subsection \<open>Sample texts and conversions\<close>

text \<open>Sample texts by their code points: \<^verbatim>\<open>{"k": [1, "\u00e9", null], "k": [-20, "x\n", true, {}]}\<close>,
  with a key that is there twice; the text of a string, made of the opening quote, the
  escape \<^verbatim>\<open>\ud800\<close>, the low surrogate DC00 itself and the closing quote; and
  \<^verbatim>\<open>[1.5, NaN, -Infinity]\<close>.\<close>

definition nested_text :: pystr where
  "nested_text =
     [123, 34, 107, 34, 58, 32, 91, 49, 44, 32, 34, 92, 117, 48, 48, 101, 57, 34, 44, 32, 110, 117,
      108, 108, 93, 44, 32, 34, 107, 34, 58, 32, 91, 45, 50, 48, 44, 32, 34, 120, 92, 110, 34, 44,
      32, 116, 114, 117, 101, 44, 32, 123, 125, 93, 125]"

definition surrogate_text :: pystr where
  "surrogate_text = [34, 92, 117, 100, 56, 48, 48, 56320, 34]"

definition floats_text :: pystr where
  "floats_text = U ''[1.5, NaN, -Infinity]''"

text \<open>Two conversions that agree with \<^verbatim>\<open>float\<close> and \<^verbatim>\<open>repr\<close> at 1.5, whose bits are
  3FF8000000000000.\<close>

definition sample_float_of :: "pystr \<Rightarrow> 64 word" where
  "sample_float_of l = (if l = U ''1.5'' then 0x3FF8000000000000 else 0)"

definition sample_float_repr :: "64 word \<Rightarrow> pystr" where
  "sample_float_repr w = (if w = 0x3FF8000000000000 then U ''1.5'' else U ''0.0'')"

section \<open>Properties of the trace fetcher\<close>

lemma U_eq_iff [simp]: "U s = U t \<longleftrightarrow> s = t"
  unfolding U_def by (simp add: inj_map_eq_map inj_on_def)

lemma and_then_Inr [simp]: "and_then (Inr v) f = f v"
  by (simp add: and_then_def)

lemma and_then_Inl [simp]: "and_then (Inl e) f = Inl e"
  by (simp add: and_then_def)

lemma and_then_eq_Inr: "and_then m f = Inr y \<longleftrightarrow> (\<exists>v. m = Inr v \<and> f v = Inr y)"
  by (cases m) simp_all

lemma subscript_eq_Inr: "subscript obj k = Inr v \<longleftrightarrow> (\<exists>kvs. obj = JDict kvs \<and> map_of kvs k = Some v)"
  by (cases obj) (auto split: option.splits)

lemma dict_get_eq_Inr: "dict_get obj k d = Inr v \<longleftrightarrow> (\<exists>kvs. obj = JDict kvs \<and> v = (case map_of kvs k of Some x \<Rightarrow> x | None \<Rightarrow> d))"
  by (cases obj) (auto split: option.splits)

lemma for_each_eq_Inr:
  "for_each f xs = Inr ys \<longleftrightarrow> length ys = length xs \<and> (\<forall>i<length xs. f (xs ! i) = Inr (ys ! i))"
proof (induction xs arbitrary: ys)
  case Nil
  then show ?case by auto
next
  case (Cons x xs)
  show ?case
  proof (cases ys)
    case Nil
    then show ?thesis by (auto simp: and_then_eq_Inr)
  next
    case (Cons y ys')
    then show ?thesis
      by (auto simp: and_then_eq_Inr Cons.IH nth_Cons split: nat.splits)
  qed
qed

lemma for_each_ok:
  assumes "\<And>x. x \<in> set xs \<Longrightarrow> \<exists>y. f x = Inr y"
  shows "\<exists>ys. for_each f xs = Inr ys"
  using assms
proof (induction xs)
  case Nil
  then show ?case by simp
next
  case (Cons x xs)
  then obtain y where y: "f x = Inr y" by auto
  from Cons obtain ys where "for_each f xs = Inr ys" by auto
  with y show ?case by simp
qed

lemma io_value_ok: "io_ok nkv k \<Longrightarrow> \<exists>v. io_value (JDict nkv) k = Inr v"
  unfolding io_ok_def io_value_def
  by (cases "map_of nkv k") (auto elim: is_dict.elims)

lemma parse_attrs_ok:
  "attrs_decodable loads e \<Longrightarrow>
   \<exists>v. parse_attrs loads (case map_of (node_of e) (U ''attributes'') of Some x \<Rightarrow> x | None \<Rightarrow> JNull) = Inr v"
  unfolding attrs_decodable_def
  by (auto split: option.splits json.splits sum.splits py_error.splits)

lemma has_keys_D: "has_keys kvs ks \<Longrightarrow> k \<in> set ks \<Longrightarrow> \<exists>v. map_of kvs k = Some v"
  unfolding has_keys_def list_all_iff by auto

lemma has_keys_simps [simp]:
  "has_keys kvs [] = True"
  "has_keys kvs (k # ks) = ((\<exists>v. map_of kvs k = Some v) \<and> has_keys kvs ks)"
  by (auto simp: has_keys_def)

lemma flatten_span_inv:
  assumes "flatten_span loads e = Inr out"
  shows "\<exists>ekv nkv attrs inp outp. e = JDict ekv \<and> map_of ekv (U ''node'') = Some (JDict nkv) \<and>
     has_keys nkv span_required \<and>
     parse_attrs loads (case map_of nkv (U ''attributes'') of Some x \<Rightarrow> x | None \<Rightarrow> JNull) = Inr attrs \<and>
     io_value (JDict nkv) (U ''input'') = Inr inp \<and>
     io_value (JDict nkv) (U ''output'') = Inr outp \<and>
     out = JDict
         [(U ''name'', the (map_of nkv (U ''name''))),
          (U ''spanKind'', the (map_of nkv (U ''spanKind''))),
          (U ''statusCode'', the (map_of nkv (U ''statusCode''))),
          (U ''statusMessage'', (case map_of nkv (U ''statusMessage'') of Some x \<Rightarrow> x | None \<Rightarrow> JNull)),
          (U ''startTime'', the (map_of nkv (U ''startTime''))),
          (U ''endTime'', the (map_of nkv (U ''endTime''))),
          (U ''latencyMs'', the (map_of nkv (U ''latencyMs''))),
          (U ''parentId'', the (map_of nkv (U ''parentId''))),
          (U ''tokenCountTotal'', the (map_of nkv (U ''tokenCountTotal''))),
          (U ''tokenCountPrompt'', the (map_of nkv (U ''tokenCountPrompt''))),
          (U ''tokenCountCompletion'', the (map_of nkv (U ''tokenCountCompletion''))),
          (U ''input'', inp),
          (U ''output'', outp),
          (U ''attributes'', attrs)]"
  using assms unfolding flatten_span_def and_then_eq_Inr subscript_eq_Inr dict_get_eq_Inr span_required_def
  by auto

lemma node_of_eq: "e = JDict ekv \<Longrightarrow> map_of ekv (U ''node'') = Some (JDict nkv) \<Longrightarrow> node_of e = nkv"
  by (simp add: node_of_def)

lemma flatten_span_inv2:
  assumes "flatten_span loads e = Inr out"
  shows "\<exists>attrs inp outp.
     has_keys (node_of e) span_required \<and>
     parse_attrs loads (case map_of (node_of e) (U ''attributes'') of Some x \<Rightarrow> x | None \<Rightarrow> JNull) = Inr attrs \<and>
     io_value (JDict (node_of e)) (U ''input'') = Inr inp \<and>
     io_value (JDict (node_of e)) (U ''output'') = Inr outp \<and>
     out = JDict
         [(U ''name'', the (map_of (node_of e) (U ''name''))),
          (U ''spanKind'', the (map_of (node_of e) (U ''spanKind''))),
          (U ''statusCode'', the (map_of (node_of e) (U ''statusCode''))),
          (U ''statusMessage'', (case map_of (node_of e) (U ''statusMessage'') of Some x \<Rightarrow> x | None \<Rightarrow> JNull)),
          (U ''startTime'', the (map_of (node_of e) (U ''startTime''))),
          (U ''endTime'', the (map_of (node_of e) (U ''endTime''))),
          (U ''latencyMs'', the (map_of (node_of e) (U ''latencyMs''))),
          (U ''parentId'', the (map_of (node_of e) (U ''parentId''))),
          (U ''tokenCountTotal'', the (map_of (node_of e) (U ''tokenCountTotal''))),
          (U ''tokenCountPrompt'', the (map_of (node_of e) (U ''tokenCountPrompt''))),
          (U ''tokenCountCompletion'', the (map_of (node_of e) (U ''tokenCountCompletion''))),
          (U ''input'', inp),
          (U ''output'', outp),
          (U ''attributes'', attrs)]"
proof -
  from flatten_span_inv[OF assms] obtain ekv nkv attrs inp outp where
    e: "e = JDict ekv" "map_of ekv (U ''node'') = Some (JDict nkv)"
    and rest: "has_keys nkv span_required"
     "parse_attrs loads (case map_of nkv (U ''attributes'') of Some x \<Rightarrow> x | None \<Rightarrow> JNull) = Inr attrs"
     "io_value (JDict nkv) (U ''input'') = Inr inp"
     "io_value (JDict nkv) (U ''output'') = Inr outp"
     "out = JDict
         [(U ''name'', the (map_of nkv (U ''name''))),
          (U ''spanKind'', the (map_of nkv (U ''spanKind''))),
          (U ''statusCode'', the (map_of nkv (U ''statusCode''))),
          (U ''statusMessage'', (case map_of nkv (U ''statusMessage'') of Some x \<Rightarrow> x | None \<Rightarrow> JNull)),
          (U ''startTime'', the (map_of nkv (U ''startTime''))),
          (U ''endTime'', the (map_of nkv (U ''endTime''))),
          (U ''latencyMs'', the (map_of nkv (U ''latencyMs''))),
          (U ''parentId'', the (map_of nkv (U ''parentId''))),
          (U ''tokenCountTotal'', the (map_of nkv (U ''tokenCountTotal''))),
          (U ''tokenCountPrompt'', the (map_of nkv (U ''tokenCountPrompt''))),
          (U ''tokenCountCompletion'', the (map_of nkv (U ''tokenCountCompletion''))),
          (U ''input'', inp),
          (U ''output'', outp),
          (U ''attributes'', attrs)]"
    by blast
  have n: "node_of e = nkv" by (rule node_of_eq[OF e])
  from rest show ?thesis unfolding n by blast
qed

lemma flatten_span_wf:
  assumes wf: "wf_span_edge e"
    and a: "parse_attrs loads (case map_of (node_of e) (U ''attributes'') of Some x \<Rightarrow> x | None \<Rightarrow> JNull) = Inr attrs"
  shows "\<exists>okv. flatten_span loads e = Inr (JDict okv) \<and> map_of okv (U ''attributes'') = Some attrs"
proof -
  from wf obtain ekv nkv where e: "e = JDict ekv" "map_of ekv (U ''node'') = Some (JDict nkv)"
    and hk: "has_keys nkv span_required" and io: "io_ok nkv (U ''input'')" "io_ok nkv (U ''output'')"
    unfolding wf_span_edge_def by (auto split: json.splits option.splits)
  have n: "node_of e = nkv" by (rule node_of_eq[OF e])
  from io_value_ok[OF io(1)] obtain i where i: "io_value (JDict nkv) (U ''input'') = Inr i" by blast
  from io_value_ok[OF io(2)] obtain ou where ou: "io_value (JDict nkv) (U ''output'') = Inr ou" by blast
  from hk show ?thesis
    by (auto simp: span_required_def flatten_span_def e a[unfolded n] i ou)
qed

lemma flatten_span_ok:
  assumes "wf_span_edge e" "attrs_decodable loads e"
  shows "\<exists>out. flatten_span loads e = Inr out"
proof -
  from parse_attrs_ok[OF assms(2)] obtain a where
    a: "parse_attrs loads (case map_of (node_of e) (U ''attributes'') of Some x \<Rightarrow> x | None \<Rightarrow> JNull) = Inr a"
    by blast
  from flatten_span_wf[OF assms(1) a] show ?thesis by blast
qed

lemma flatten_span_fields:
  assumes "flatten_span loads e = Inr out"
  shows "\<exists>okv. out = JDict okv \<and> map fst okv = output_keys \<and>
     (\<forall>k\<in>set span_required. map_of okv k = map_of (node_of e) k)"
proof -
  from flatten_span_inv2[OF assms] obtain attrs inp outp where
    hk: "has_keys (node_of e) span_required"
    and out: "out = JDict
         [(U ''name'', the (map_of (node_of e) (U ''name''))),
          (U ''spanKind'', the (map_of (node_of e) (U ''spanKind''))),
          (U ''statusCode'', the (map_of (node_of e) (U ''statusCode''))),
          (U ''statusMessage'', (case map_of (node_of e) (U ''statusMessage'') of Some x \<Rightarrow> x | None \<Rightarrow> JNull)),
          (U ''startTime'', the (map_of (node_of e) (U ''startTime''))),
          (U ''endTime'', the (map_of (node_of e) (U ''endTime''))),
          (U ''latencyMs'', the (map_of (node_of e) (U ''latencyMs''))),
          (U ''parentId'', the (map_of (node_of e) (U ''parentId''))),
          (U ''tokenCountTotal'', the (map_of (node_of e) (U ''tokenCountTotal''))),
          (U ''tokenCountPrompt'', the (map_of (node_of e) (U ''tokenCountPrompt''))),
          (U ''tokenCountCompletion'', the (map_of (node_of e) (U ''tokenCountCompletion''))),
          (U ''input'', inp),
          (U ''output'', outp),
          (U ''attributes'', attrs)]" (is "_ = JDict ?okv")
    by blast
  have "map fst ?okv = output_keys" by (simp add: output_keys_def)
  moreover from hk have "\<forall>k\<in>set span_required. map_of ?okv k = map_of (node_of e) k"
    by (auto simp: span_required_def)
  ultimately show ?thesis using out by blast
qed

lemma edges_of_eq_Some:
  "edges_of kvs k = Some es \<longleftrightarrow> (\<exists>ckv. map_of kvs k = Some (JDict ckv) \<and> map_of ckv (U ''edges'') = Some (JList es))"
  unfolding edges_of_def by (auto split: option.splits json.splits)

lemma flatten_trace_inv:
  assumes "flatten_trace loads e = Inr out"
  shows "\<exists>ekv nkv es sp. e = JDict ekv \<and> map_of ekv (U ''node'') = Some (JDict nkv) \<and>
     has_keys nkv trace_required \<and>
     for_each (flatten_span loads) es = Inr sp \<and>
     out = JDict
         [(U ''traceId'', the (map_of nkv (U ''traceId''))),
          (U ''startTime'', the (map_of nkv (U ''startTime''))),
          (U ''endTime'', the (map_of nkv (U ''endTime''))),
          (U ''latencyMs'', the (map_of nkv (U ''latencyMs''))),
          (U ''spans'', JList sp)]"
  using assms unfolding flatten_trace_def and_then_eq_Inr subscript_eq_Inr dict_get_eq_Inr trace_required_def
  by auto

lemma flatten_trace_wf:
  assumes wf: "wf_trace_edge e" and dec: "list_all (attrs_decodable loads) (span_edges e)"
  shows "\<exists>sp. for_each (flatten_span loads) (span_edges e) = Inr sp \<and>
     flatten_trace loads e = Inr (JDict
         [(U ''traceId'', the (map_of (node_of e) (U ''traceId''))),
          (U ''startTime'', the (map_of (node_of e) (U ''startTime''))),
          (U ''endTime'', the (map_of (node_of e) (U ''endTime''))),
          (U ''latencyMs'', the (map_of (node_of e) (U ''latencyMs''))),
          (U ''spans'', JList sp)])"
proof -
  from wf obtain ekv nkv es where e: "e = JDict ekv" "map_of ekv (U ''node'') = Some (JDict nkv)"
    and hk: "has_keys nkv trace_required" and es: "edges_of nkv (U ''spans'') = Some es"
    and wfs: "list_all wf_span_edge es"
    unfolding wf_trace_edge_def by (auto split: json.splits option.splits)
  have node: "node_of e = nkv" by (simp add: node_of_def e)
  have se: "span_edges e = es" by (simp add: span_edges_def node es)
  from es obtain ckv where c: "map_of nkv (U ''spans'') = Some (JDict ckv)"
      "map_of ckv (U ''edges'') = Some (JList es)"
    by (auto simp: edges_of_eq_Some)
  have "\<exists>sp. for_each (flatten_span loads) es = Inr sp"
    by (rule for_each_ok) (use wfs dec[unfolded se] flatten_span_ok in \<open>auto simp: list_all_iff\<close>)
  then obtain sp where sp: "for_each (flatten_span loads) es = Inr sp" ..
  from hk show ?thesis
    by (auto simp: trace_required_def flatten_trace_def e c sp node[unfolded e] se[unfolded e])
qed

lemma flatten_trace_fields:
  assumes "wf_trace_edge e"
  shows "\<forall>k\<in>set trace_required.
     map_of [(U ''traceId'', the (map_of (node_of e) (U ''traceId''))),
          (U ''startTime'', the (map_of (node_of e) (U ''startTime''))),
          (U ''endTime'', the (map_of (node_of e) (U ''endTime''))),
          (U ''latencyMs'', the (map_of (node_of e) (U ''latencyMs''))),
          (U ''spans'', JList sp)] k = map_of (node_of e) k"
proof -
  from assms obtain ekv nkv where e: "e = JDict ekv" "map_of ekv (U ''node'') = Some (JDict nkv)"
    and hk: "has_keys nkv trace_required"
    unfolding wf_trace_edge_def by (auto split: json.splits option.splits)
  have node: "node_of e = nkv" by (simp add: node_of_def e)
  from hk show ?thesis unfolding node by (auto simp: trace_required_def)
qed

lemma session_of_eq_Some:
  "session_of payload = Some skv \<longleftrightarrow>
   (\<exists>kvs d. payload = JDict kvs \<and> map_of kvs (U ''data'') = Some (JDict d) \<and>
      map_of d (U ''getProjectSessionById'') = Some (JDict skv))"
  unfolding session_of_def by (auto split: option.splits json.splits)

lemma py_in_dict: "py_in k (JDict kvs) = Inr (map_of kvs k \<noteq> None)"
  by (simp add: map_of_eq_None_iff)

lemma flatten_payload_wf:
  assumes wf: "wf_payload payload" and dec: "payload_decodable loads payload"
  shows "\<exists>skv ts. session_of payload = Some skv \<and>
     for_each (flatten_trace loads) (trace_edges payload) = Inr ts \<and>
     flatten_payload loads payload = Inr (Some (JDict
         [(U ''sessionId'', the (map_of skv (U ''sessionId''))),
          (U ''numTraces'', the (map_of skv (U ''numTraces''))),
          (U ''startTime'', the (map_of skv (U ''startTime''))),
          (U ''endTime'', the (map_of skv (U ''endTime''))),
          (U ''traces'', JList ts)]))"
proof -
  from wf obtain kvs skv es where p: "payload = JDict kvs" and ne: "map_of kvs (U ''errors'') = None"
    and s: "session_of payload = Some skv" and hk: "has_keys skv session_required"
    and es: "edges_of skv (U ''traces'') = Some es" and wft: "list_all wf_trace_edge es"
    unfolding wf_payload_def by (auto split: json.splits option.splits)
  from s p obtain d where d: "map_of kvs (U ''data'') = Some (JDict d)"
      "map_of d (U ''getProjectSessionById'') = Some (JDict skv)"
    by (auto simp: session_of_eq_Some)
  from es obtain ckv where c: "map_of skv (U ''traces'') = Some (JDict ckv)"
      "map_of ckv (U ''edges'') = Some (JList es)"
    by (auto simp: edges_of_eq_Some)
  have te: "trace_edges payload = es" by (simp add: trace_edges_def s es)
  have "\<exists>ts. for_each (flatten_trace loads) es = Inr ts"
  proof (rule for_each_ok)
    fix x assume x: "x \<in> set es"
    with wft have 1: "wf_trace_edge x" by (simp add: list_all_iff)
    from dec x have 2: "list_all (attrs_decodable loads) (span_edges x)"
      unfolding payload_decodable_def te by (simp add: list_all_iff)
    from flatten_trace_wf[OF 1 2] show "\<exists>y. flatten_trace loads x = Inr y" by blast
  qed
  then obtain ts where ts: "for_each (flatten_trace loads) es = Inr ts" ..
  have nonempty: "skv \<noteq> []" using hk by (auto simp: session_required_def)
  from hk have "flatten_payload loads payload = Inr (Some (JDict
         [(U ''sessionId'', the (map_of skv (U ''sessionId''))),
          (U ''numTraces'', the (map_of skv (U ''numTraces''))),
          (U ''startTime'', the (map_of skv (U ''startTime''))),
          (U ''endTime'', the (map_of skv (U ''endTime''))),
          (U ''traces'', JList ts)]))"
    unfolding flatten_payload_def p py_in_dict
    by (auto simp: session_required_def ne d c ts nonempty)
  with s ts te show ?thesis by simp
qed

lemma flatten_payload_not_found:
  assumes "map_of kvs (U ''errors'') = None"
    and "map_of kvs (U ''data'') = None \<or>
         (\<exists>d. map_of kvs (U ''data'') = Some (JDict d) \<and>
              (map_of d (U ''getProjectSessionById'') = None \<or>
               (\<exists>v. map_of d (U ''getProjectSessionById'') = Some v \<and> \<not> truthy v)))"
  shows "flatten_payload loads (JDict kvs) = Inr None"
  using assms unfolding flatten_payload_def py_in_dict by auto

lemma fetch_traces_reply:
  assumes "post (base_url @ U ''/graphql'') session_id = Reply status (Some payload)"
    and "\<not> (400 \<le> status \<and> status < 600)"
  shows "fetch_traces loads post session_id base_url = flatten_payload loads payload"
  using assms by (auto simp: fetch_traces_def)

text \<open>
  Claim C1. For a well-formed response whose session has N trace edges, the i-th with
  s_i span edges, \<open>fetch_traces\<close> returns a session whose \<^verbatim>\<open>traces\<close> list has length N.
  Its i-th trace is the flattening of the i-th trace edge and carries the four fields
  of that edge's node (\<^verbatim>\<open>traceId\<close> among them); its \<^verbatim>\<open>spans\<close> list has length s_i, and
  its j-th span is the flattening of the j-th span edge, an object with the fourteen
  span keys that carries the ten subscripted fields of that edge's node (\<^verbatim>\<open>name\<close>,
  \<^verbatim>\<open>startTime\<close>, \<^verbatim>\<open>parentId\<close> and the others): the server's order is kept. The decoder
  is any function that, on the attributes strings of this response, returns a value or
  raises \<^verbatim>\<open>JSONDecodeError\<close>.
\<close>

theorem fetch_traces_shape:
  assumes "post (base_url @ U ''/graphql'') session_id = Reply status (Some payload)"
    and "\<not> (400 \<le> status \<and> status < 600)"
    and "wf_payload payload"
    and "payload_decodable loads payload"
  shows "\<exists>skv ts. fetch_traces loads post session_id base_url = Inr (Some (JDict skv)) \<and>
      map_of skv (U ''traces'') = Some (JList ts) \<and>
      length ts = length (trace_edges payload) \<and>
      (\<forall>i<length (trace_edges payload).
         \<exists>tkv sp. ts ! i = JDict tkv \<and>
           flatten_trace loads (trace_edges payload ! i) = Inr (ts ! i) \<and>
           (\<forall>k\<in>set trace_required.
              map_of tkv k = map_of (node_of (trace_edges payload ! i)) k) \<and>
           map_of tkv (U ''spans'') = Some (JList sp) \<and>
           length sp = length (span_edges (trace_edges payload ! i)) \<and>
           (\<forall>j<length sp.
              \<exists>okv. sp ! j = JDict okv \<and>
                flatten_span loads (span_edges (trace_edges payload ! i) ! j) = Inr (sp ! j) \<and>
                map fst okv = output_keys \<and>
                (\<forall>k\<in>set span_required.
                   map_of okv k = map_of (node_of (span_edges (trace_edges payload ! i) ! j)) k)))"
proof -
  from flatten_payload_wf[OF assms(3,4)] obtain skv ts where
    s: "session_of payload = Some skv"
    and ts: "for_each (flatten_trace loads) (trace_edges payload) = Inr ts"
    and fp: "flatten_payload loads payload = Inr (Some (JDict
         [(U ''sessionId'', the (map_of skv (U ''sessionId''))),
          (U ''numTraces'', the (map_of skv (U ''numTraces''))),
          (U ''startTime'', the (map_of skv (U ''startTime''))),
          (U ''endTime'', the (map_of skv (U ''endTime''))),
          (U ''traces'', JList ts)]))" (is "_ = Inr (Some (JDict ?res))")
    by blast
  have wft: "list_all wf_trace_edge (trace_edges payload)"
    using assms(3) s unfolding wf_payload_def trace_edges_def
    by (auto split: json.splits option.splits)
  from ts have len: "length ts = length (trace_edges payload)"
    and each: "\<And>i. i < length (trace_edges payload) \<Longrightarrow> flatten_trace loads (trace_edges payload ! i) = Inr (ts ! i)"
    by (simp_all add: for_each_eq_Inr)
  have per: "\<exists>tkv sp. ts ! i = JDict tkv \<and>
           flatten_trace loads (trace_edges payload ! i) = Inr (ts ! i) \<and>
           (\<forall>k\<in>set trace_required.
              map_of tkv k = map_of (node_of (trace_edges payload ! i)) k) \<and>
           map_of tkv (U ''spans'') = Some (JList sp) \<and>
           length sp = length (span_edges (trace_edges payload ! i)) \<and>
           (\<forall>j<length sp.
              \<exists>okv. sp ! j = JDict okv \<and>
                flatten_span loads (span_edges (trace_edges payload ! i) ! j) = Inr (sp ! j) \<and>
                map fst okv = output_keys \<and>
                (\<forall>k\<in>set span_required.
                   map_of okv k = map_of (node_of (span_edges (trace_edges payload ! i) ! j)) k))"
    if i: "i < length (trace_edges payload)" for i
  proof -
    let ?e = "trace_edges payload ! i"
    have wf: "wf_trace_edge ?e" using wft i by (simp add: list_all_length)
    have dec: "list_all (attrs_decodable loads) (span_edges ?e)"
      using assms(4) i unfolding payload_decodable_def by (simp add: list_all_length)
    from flatten_trace_wf[OF wf dec] obtain sp where
      sp: "for_each (flatten_span loads) (span_edges ?e) = Inr sp"
      and ft: "flatten_trace loads ?e = Inr (JDict
         [(U ''traceId'', the (map_of (node_of ?e) (U ''traceId''))),
          (U ''startTime'', the (map_of (node_of ?e) (U ''startTime''))),
          (U ''endTime'', the (map_of (node_of ?e) (U ''endTime''))),
          (U ''latencyMs'', the (map_of (node_of ?e) (U ''latencyMs''))),
          (U ''spans'', JList sp)])" (is "_ = Inr (JDict ?tkv)")
      by blast
    from ft each[OF i] have eq: "ts ! i = JDict ?tkv" by simp
    have fields: "\<forall>k\<in>set trace_required. map_of ?tkv k = map_of (node_of ?e) k"
      by (rule flatten_trace_fields[OF wf])
    have spans: "map_of ?tkv (U ''spans'') = Some (JList sp)" by simp
    from sp have lsp: "length sp = length (span_edges ?e)"
      and esp: "\<And>j. j < length sp \<Longrightarrow> flatten_span loads (span_edges ?e ! j) = Inr (sp ! j)"
      by (simp_all add: for_each_eq_Inr)
    have "\<exists>okv. sp ! j = JDict okv \<and>
                flatten_span loads (span_edges ?e ! j) = Inr (sp ! j) \<and>
                map fst okv = output_keys \<and>
                (\<forall>k\<in>set span_required. map_of okv k = map_of (node_of (span_edges ?e ! j)) k)"
      if j: "j < length sp" for j
      using flatten_span_fields[OF esp[OF j]] esp[OF j] by blast
    with eq each[OF i] fields spans lsp show ?thesis by blast
  qed
  have "fetch_traces loads post session_id base_url = Inr (Some (JDict ?res))"
    using assms(1,2) fp by (auto simp: fetch_traces_def)
  moreover have "map_of ?res (U ''traces'') = Some (JList ts)" by simp
  ultimately show ?thesis using len per by blast
qed

lemma wf_two_traces: "wf_payload two_traces"
  by (simp add: wf_payload_def two_traces_def example_payload_def session_of_def edges_of_def
      wf_trace_edge_def example_trace_def trace_required_def session_required_def
      wf_span_edge_def example_span_def span_required_def io_ok_def)

lemma trace_edges_two_traces:
  "trace_edges two_traces =
     [example_trace (U ''t1'') [example_span (U ''a'') JNull],
      example_trace (U ''t2'') [example_span (U ''b'') (JStr (U ''{oops'')), example_span (U ''c'') JNull]]"
  by (simp add: trace_edges_def two_traces_def example_payload_def session_of_def edges_of_def)

lemma span_edges_example_trace: "span_edges (example_trace t es) = es"
  by (simp add: span_edges_def example_trace_def node_of_def edges_of_def)

lemma wf_example_span: "wf_span_edge (example_span n a)"
  by (simp add: wf_span_edge_def example_span_def span_required_def io_ok_def)

lemma attributes_example_span: "map_of (node_of (example_span n a)) (U ''attributes'') = Some a"
  by (simp add: node_of_def example_span_def)

lemma name_example_span: "map_of (node_of (example_span n a)) (U ''name'') = Some (JStr n)"
  by (simp add: node_of_def example_span_def)

lemma traceId_example_trace: "map_of (node_of (example_trace t es)) (U ''traceId'') = Some (JStr t)"
  by (simp add: node_of_def example_trace_def)

lemma payload_decodable_two_traces: "payload_decodable reject_all two_traces"
  by (simp add: payload_decodable_def trace_edges_two_traces span_edges_example_trace
      attrs_decodable_def attributes_example_span reject_all_def)

text \<open>The theorem at a response with two traces, the first with the span \<^verbatim>\<open>a\<close> and the
  second with the spans \<^verbatim>\<open>b\<close> and \<^verbatim>\<open>c\<close>: the result has the traces \<^verbatim>\<open>t1\<close> and \<^verbatim>\<open>t2\<close>
  with the spans \<^verbatim>\<open>a\<close> and \<^verbatim>\<open>b\<close>, \<^verbatim>\<open>c\<close>, in that order.\<close>

theorem fetch_traces_shape_witness:
  "wf_payload two_traces \<and> payload_decodable reject_all two_traces \<and>
   map (\<lambda>e. length (span_edges e)) (trace_edges two_traces) = [1, 2] \<and>
   (\<exists>skv ts. fetch_traces reject_all (server two_traces) (U ''s1'') (U ''http://localhost:6006'')
        = Inr (Some (JDict skv)) \<and>
      map_of skv (U ''traces'') = Some (JList ts) \<and> length ts = 2 \<and>
      (\<exists>tkv sp okv. ts ! 0 = JDict tkv \<and>
         map_of tkv (U ''traceId'') = Some (JStr (U ''t1'')) \<and>
         map_of tkv (U ''spans'') = Some (JList sp) \<and> length sp = 1 \<and>
         sp ! 0 = JDict okv \<and> map_of okv (U ''name'') = Some (JStr (U ''a''))) \<and>
      (\<exists>tkv sp okv okv'. ts ! 1 = JDict tkv \<and>
         map_of tkv (U ''traceId'') = Some (JStr (U ''t2'')) \<and>
         map_of tkv (U ''spans'') = Some (JList sp) \<and> length sp = 2 \<and>
         sp ! 0 = JDict okv \<and> map_of okv (U ''name'') = Some (JStr (U ''b'')) \<and>
         sp ! 1 = JDict okv' \<and> map_of okv' (U ''name'') = Some (JStr (U ''c''))))"
proof -
  have post: "server two_traces (U ''http://localhost:6006'' @ U ''/graphql'') (U ''s1'') = Reply 200 (Some two_traces)"
    by (simp add: server_def)
  have st: "\<not> (400 \<le> (200::nat) \<and> (200::nat) < 600)" by simp
  from fetch_traces_shape[where loads = reject_all and post = "server two_traces"
      and base_url = "U ''http://localhost:6006''" and session_id = "U ''s1''"
      and status = 200 and payload = two_traces,
      OF post st wf_two_traces payload_decodable_two_traces]
  obtain skv ts where r: "fetch_traces reject_all (server two_traces) (U ''s1'') (U ''http://localhost:6006'')
        = Inr (Some (JDict skv))" "map_of skv (U ''traces'') = Some (JList ts)"
     "length ts = length (trace_edges two_traces)"
     and all: "\<And>i. i < length (trace_edges two_traces) \<Longrightarrow>
         \<exists>tkv sp. ts ! i = JDict tkv \<and>
           flatten_trace reject_all (trace_edges two_traces ! i) = Inr (ts ! i) \<and>
           (\<forall>k\<in>set trace_required.
              map_of tkv k = map_of (node_of (trace_edges two_traces ! i)) k) \<and>
           map_of tkv (U ''spans'') = Some (JList sp) \<and>
           length sp = length (span_edges (trace_edges two_traces ! i)) \<and>
           (\<forall>j<length sp.
              \<exists>okv. sp ! j = JDict okv \<and>
                flatten_span reject_all (span_edges (trace_edges two_traces ! i) ! j) = Inr (sp ! j) \<and>
                map fst okv = output_keys \<and>
                (\<forall>k\<in>set span_required.
                   map_of okv k = map_of (node_of (span_edges (trace_edges two_traces ! i) ! j)) k))"
    by blast
  have tid: "U ''traceId'' \<in> set trace_required" by (simp add: trace_required_def)
  have nm: "U ''name'' \<in> set span_required" by (simp add: span_required_def)
  have e0: "trace_edges two_traces ! 0 = example_trace (U ''t1'') [example_span (U ''a'') JNull]"
    by (simp add: trace_edges_two_traces)
  have e1: "trace_edges two_traces ! 1 =
      example_trace (U ''t2'') [example_span (U ''b'') (JStr (U ''{oops'')), example_span (U ''c'') JNull]"
    by (simp add: trace_edges_two_traces)
  have l0: "0 < length (trace_edges two_traces)" and l1: "1 < length (trace_edges two_traces)"
    by (simp_all add: trace_edges_two_traces)
  from all[OF l0] obtain tkv0 sp0 where t0: "ts ! 0 = JDict tkv0"
    and f0: "\<forall>k\<in>set trace_required. map_of tkv0 k = map_of (node_of (trace_edges two_traces ! 0)) k"
    and s0: "map_of tkv0 (U ''spans'') = Some (JList sp0)"
      "length sp0 = length (span_edges (trace_edges two_traces ! 0))"
    and a0: "\<And>j. j < length sp0 \<Longrightarrow> \<exists>okv. sp0 ! j = JDict okv \<and>
          (\<forall>k\<in>set span_required.
             map_of okv k = map_of (node_of (span_edges (trace_edges two_traces ! 0) ! j)) k)"
    by blast
  from all[OF l1] obtain tkv1 sp1 where t1: "ts ! 1 = JDict tkv1"
    and f1: "\<forall>k\<in>set trace_required. map_of tkv1 k = map_of (node_of (trace_edges two_traces ! 1)) k"
    and s1: "map_of tkv1 (U ''spans'') = Some (JList sp1)"
      "length sp1 = length (span_edges (trace_edges two_traces ! 1))"
    and a1: "\<And>j. j < length sp1 \<Longrightarrow> \<exists>okv. sp1 ! j = JDict okv \<and>
          (\<forall>k\<in>set span_required.
             map_of okv k = map_of (node_of (span_edges (trace_edges two_traces ! 1) ! j)) k)"
    by blast
  have len0: "length sp0 = 1" using s0(2) unfolding e0 span_edges_example_trace by simp
  have len1: "length sp1 = 2" using s1(2) unfolding e1 span_edges_example_trace by simp
  have id0: "map_of tkv0 (U ''traceId'') = Some (JStr (U ''t1''))"
    using bspec[OF f0 tid] unfolding e0 by (simp add: traceId_example_trace)
  have id1: "map_of tkv1 (U ''traceId'') = Some (JStr (U ''t2''))"
    using bspec[OF f1 tid] unfolding e1 by (simp add: traceId_example_trace)
  from a0[of 0] len0 obtain okv00 where o00: "sp0 ! 0 = JDict okv00"
    "\<forall>k\<in>set span_required.
       map_of okv00 k = map_of (node_of (span_edges (trace_edges two_traces ! 0) ! 0)) k"
    by auto
  from a1[of 0] len1 obtain okv10 where o10: "sp1 ! 0 = JDict okv10"
    "\<forall>k\<in>set span_required.
       map_of okv10 k = map_of (node_of (span_edges (trace_edges two_traces ! 1) ! 0)) k"
    by auto
  from a1[of 1] len1 obtain okv11 where o11: "sp1 ! 1 = JDict okv11"
    "\<forall>k\<in>set span_required.
       map_of okv11 k = map_of (node_of (span_edges (trace_edges two_traces ! 1) ! 1)) k"
    by auto
  have n00: "map_of okv00 (U ''name'') = Some (JStr (U ''a''))"
    using bspec[OF o00(2) nm] unfolding e0 span_edges_example_trace by (simp add: name_example_span)
  have n10: "map_of okv10 (U ''name'') = Some (JStr (U ''b''))"
    using bspec[OF o10(2) nm] unfolding e1 span_edges_example_trace by (simp add: name_example_span)
  have n11: "map_of okv11 (U ''name'') = Some (JStr (U ''c''))"
    using bspec[OF o11(2) nm] unfolding e1 span_edges_example_trace by (simp add: name_example_span)
  have first: "\<exists>tkv sp okv. ts ! 0 = JDict tkv \<and>
         map_of tkv (U ''traceId'') = Some (JStr (U ''t1'')) \<and>
         map_of tkv (U ''spans'') = Some (JList sp) \<and> length sp = 1 \<and>
         sp ! 0 = JDict okv \<and> map_of okv (U ''name'') = Some (JStr (U ''a''))"
    using t0 id0 s0(1) len0 o00(1) n00 by blast
  have second: "\<exists>tkv sp okv okv'. ts ! 1 = JDict tkv \<and>
         map_of tkv (U ''traceId'') = Some (JStr (U ''t2'')) \<and>
         map_of tkv (U ''spans'') = Some (JList sp) \<and> length sp = 2 \<and>
         sp ! 0 = JDict okv \<and> map_of okv (U ''name'') = Some (JStr (U ''b'')) \<and>
         sp ! 1 = JDict okv' \<and> map_of okv' (U ''name'') = Some (JStr (U ''c''))"
    using t1 id1 s1(1) len1 o10(1) n10 o11(1) n11 by blast
  have lens: "map (\<lambda>e. length (span_edges e)) (trace_edges two_traces) = [1, 2]"
    by (simp add: trace_edges_two_traces span_edges_example_trace)
  have "length ts = 2" using r(3) by (simp add: trace_edges_two_traces)
  with r(1,2) first second have "\<exists>skv ts. fetch_traces reject_all (server two_traces) (U ''s1'') (U ''http://localhost:6006'')
        = Inr (Some (JDict skv)) \<and>
      map_of skv (U ''traces'') = Some (JList ts) \<and> length ts = 2 \<and>
      (\<exists>tkv sp okv. ts ! 0 = JDict tkv \<and>
         map_of tkv (U ''traceId'') = Some (JStr (U ''t1'')) \<and>
         map_of tkv (U ''spans'') = Some (JList sp) \<and> length sp = 1 \<and>
         sp ! 0 = JDict okv \<and> map_of okv (U ''name'') = Some (JStr (U ''a''))) \<and>
      (\<exists>tkv sp okv okv'. ts ! 1 = JDict tkv \<and>
         map_of tkv (U ''traceId'') = Some (JStr (U ''t2'')) \<and>
         map_of tkv (U ''spans'') = Some (JList sp) \<and> length sp = 2 \<and>
         sp ! 0 = JDict okv \<and> map_of okv (U ''name'') = Some (JStr (U ''b'')) \<and>
         sp ! 1 = JDict okv' \<and> map_of okv' (U ''name'') = Some (JStr (U ''c'')))"
    by blast
  with wf_two_traces payload_decodable_two_traces lens show ?thesis by blast
qed



lemma io_value_null:
  "map_of nkv k = None \<or> map_of nkv k = Some JNull \<Longrightarrow> io_value (JDict nkv) k = Inr v \<Longrightarrow> v = JNull"
  by (auto simp: io_value_def)

text \<open>
  Claim C6, as amended. A span node that has the ten fields the source reads by
  subscript, the three token counts among them, and whose \<^verbatim>\<open>input\<close> and \<^verbatim>\<open>output\<close> are
  objects when they are there and not null, is flattened, whether or not it has the keys
  \<^verbatim>\<open>statusMessage\<close>, \<^verbatim>\<open>input\<close>, \<^verbatim>\<open>output\<close> and \<^verbatim>\<open>attributes\<close>; its flattened span has all
  fourteen keys. \<^verbatim>\<open>statusMessage\<close>, \<^verbatim>\<open>input\<close> and \<^verbatim>\<open>output\<close> are null in it when they
  are absent or null in the response; a token count is null in it when it is null in
  the response.
\<close>

theorem optional_fields_explicit_null:
  assumes "wf_span_edge e" and "attrs_decodable loads e"
  shows "\<exists>okv. flatten_span loads e = Inr (JDict okv) \<and> map fst okv = output_keys \<and>
     (\<forall>k \<in> {U ''statusMessage'', U ''input'', U ''output''}.
        map_of (node_of e) k = None \<or> map_of (node_of e) k = Some JNull \<longrightarrow>
        map_of okv k = Some JNull) \<and>
     (\<forall>k \<in> {U ''tokenCountTotal'', U ''tokenCountPrompt'', U ''tokenCountCompletion''}.
        map_of (node_of e) k = Some JNull \<longrightarrow> map_of okv k = Some JNull)"
proof -
  from flatten_span_ok[OF assms] obtain out where f: "flatten_span loads e = Inr out" ..
  from flatten_span_inv2[OF f] obtain attrs inp outp where
    i: "io_value (JDict (node_of e)) (U ''input'') = Inr inp"
    and ou: "io_value (JDict (node_of e)) (U ''output'') = Inr outp"
    and out: "out = JDict
         [(U ''name'', the (map_of (node_of e) (U ''name''))),
          (U ''spanKind'', the (map_of (node_of e) (U ''spanKind''))),
          (U ''statusCode'', the (map_of (node_of e) (U ''statusCode''))),
          (U ''statusMessage'', (case map_of (node_of e) (U ''statusMessage'') of Some x \<Rightarrow> x | None \<Rightarrow> JNull)),
          (U ''startTime'', the (map_of (node_of e) (U ''startTime''))),
          (U ''endTime'', the (map_of (node_of e) (U ''endTime''))),
          (U ''latencyMs'', the (map_of (node_of e) (U ''latencyMs''))),
          (U ''parentId'', the (map_of (node_of e) (U ''parentId''))),
          (U ''tokenCountTotal'', the (map_of (node_of e) (U ''tokenCountTotal''))),
          (U ''tokenCountPrompt'', the (map_of (node_of e) (U ''tokenCountPrompt''))),
          (U ''tokenCountCompletion'', the (map_of (node_of e) (U ''tokenCountCompletion''))),
          (U ''input'', inp),
          (U ''output'', outp),
          (U ''attributes'', attrs)]" (is "_ = JDict ?okv")
    by blast
  have "map fst ?okv = output_keys" by (simp add: output_keys_def)
  moreover have "\<forall>k \<in> {U ''statusMessage'', U ''input'', U ''output''}.
        map_of (node_of e) k = None \<or> map_of (node_of e) k = Some JNull \<longrightarrow>
        map_of ?okv k = Some JNull"
    using io_value_null[OF _ i] io_value_null[OF _ ou] by auto
  moreover have "\<forall>k \<in> {U ''tokenCountTotal'', U ''tokenCountPrompt'', U ''tokenCountCompletion''}.
        map_of (node_of e) k = Some JNull \<longrightarrow> map_of ?okv k = Some JNull"
    by auto
  ultimately show ?thesis using f out by blast
qed

lemma wf_span_without_optional: "wf_span_edge span_without_optional"
  by (simp add: wf_span_edge_def span_without_optional_def span_required_def io_ok_def)

lemma node_span_without_optional:
  "map_of (node_of span_without_optional) (U ''statusMessage'') = None"
  "map_of (node_of span_without_optional) (U ''input'') = None"
  "map_of (node_of span_without_optional) (U ''output'') = None"
  "map_of (node_of span_without_optional) (U ''attributes'') = None"
  "map_of (node_of span_without_optional) (U ''tokenCountTotal'') = Some JNull"
  "map_of (node_of span_without_optional) (U ''tokenCountCompletion'') = Some JNull"
  by (simp_all add: node_of_def span_without_optional_def)

text \<open>The amended claim at a span node without the keys \<^verbatim>\<open>statusMessage\<close>, \<^verbatim>\<open>input\<close>,
  \<^verbatim>\<open>output\<close> and \<^verbatim>\<open>attributes\<close> and with two null token counts: it is flattened, to a
  span with the fourteen keys where these five fields are null.\<close>

theorem optional_fields_explicit_null_witness:
  "wf_span_edge span_without_optional \<and> attrs_decodable reject_all span_without_optional \<and>
   map_of (node_of span_without_optional) (U ''statusMessage'') = None \<and>
   map_of (node_of span_without_optional) (U ''input'') = None \<and>
   map_of (node_of span_without_optional) (U ''output'') = None \<and>
   map_of (node_of span_without_optional) (U ''tokenCountTotal'') = Some JNull \<and>
   map_of (node_of span_without_optional) (U ''tokenCountCompletion'') = Some JNull \<and>
   (\<exists>okv. flatten_span reject_all span_without_optional = Inr (JDict okv) \<and>
      map fst okv = output_keys \<and>
      map_of okv (U ''statusMessage'') = Some JNull \<and>
      map_of okv (U ''input'') = Some JNull \<and>
      map_of okv (U ''output'') = Some JNull \<and>
      map_of okv (U ''tokenCountTotal'') = Some JNull \<and>
      map_of okv (U ''tokenCountCompletion'') = Some JNull)"
proof -
  have dec: "attrs_decodable reject_all span_without_optional"
    by (simp add: attrs_decodable_def node_span_without_optional)
  from optional_fields_explicit_null[OF wf_span_without_optional dec] obtain okv where
    f: "flatten_span reject_all span_without_optional = Inr (JDict okv)" "map fst okv = output_keys"
    and a: "\<forall>k \<in> {U ''statusMessage'', U ''input'', U ''output''}.
        map_of (node_of span_without_optional) k = None \<or>
        map_of (node_of span_without_optional) k = Some JNull \<longrightarrow>
        map_of okv k = Some JNull"
    and b: "\<forall>k \<in> {U ''tokenCountTotal'', U ''tokenCountPrompt'', U ''tokenCountCompletion''}.
        map_of (node_of span_without_optional) k = Some JNull \<longrightarrow> map_of okv k = Some JNull"
    by blast
  from a have "map_of okv (U ''statusMessage'') = Some JNull" "map_of okv (U ''input'') = Some JNull"
    "map_of okv (U ''output'') = Some JNull"
    by (simp_all add: node_span_without_optional)
  moreover from b have "map_of okv (U ''tokenCountTotal'') = Some JNull"
    "map_of okv (U ''tokenCountCompletion'') = Some JNull"
    by (simp_all add: node_span_without_optional)
  ultimately show ?thesis
    using f dec wf_span_without_optional by (simp add: node_span_without_optional)
qed

text \<open>
  Claim C6 as stated fails: a span node without the key \<^verbatim>\<open>tokenCountTotal\<close> is not
  flattened to a span with a null token count; the subscript raises \<^verbatim>\<open>KeyError\<close>.
\<close>

theorem absent_token_count_raises:
  "map_of (node_of span_without_total) (U ''tokenCountTotal'') = None \<and>
   flatten_span reject_all span_without_total = Inl (KeyError (U ''tokenCountTotal''))"
  by (simp add: span_without_total_def node_of_def flatten_span_def)

text \<open>
  Claim C5. When the payload's \<^verbatim>\<open>data\<close> has no session object for the requested
  identifier (\<^verbatim>\<open>getProjectSessionById\<close> is missing or null), \<open>fetch_traces\<close> returns the
  not-found signal and raises nothing, and \<open>main\<close> prints a diagnostic, exits with
  code 1 and writes no file and nothing on standard output.
\<close>

theorem session_not_found_exit:
  assumes "post (arg_base_url args @ U ''/graphql'') (arg_session_id args) = Reply status (Some (JDict kvs))"
    and "\<not> (400 \<le> status \<and> status < 600)"
    and "map_of kvs (U ''errors'') = None"
    and "map_of kvs (U ''data'') = Some (JDict d)"
    and "map_of d (U ''getProjectSessionById'') = None \<or> map_of d (U ''getProjectSessionById'') = Some JNull"
  shows "fetch_traces loads post (arg_session_id args) (arg_base_url args) = Inr None \<and>
     main loads dumps post writable args =
       \<lparr>exit_code = 1,
        stderr = [FetchingTraces (arg_session_id args), PhoenixURL (arg_base_url args),
                  NoSessionFound (arg_session_id args)],
        stdout = [], files_written = []\<rparr>"
proof -
  have "flatten_payload loads (JDict kvs) = Inr None"
    by (rule flatten_payload_not_found) (use assms(3,4,5) in auto)
  with assms(1,2) have f: "fetch_traces loads post (arg_session_id args) (arg_base_url args) = Inr None"
    by (auto simp: fetch_traces_def)
  then show ?thesis by (simp add: main_def)
qed

text \<open>The theorem at the answer \<^verbatim>\<open>{"data": {"getProjectSessionById": null}}\<close>, with an
  output path on the command line.\<close>

theorem session_not_found_exit_witness:
  "fetch_traces reject_all (server not_found_payload) (U ''s1'') (U ''http://localhost:6006'') = Inr None \<and>
   main reject_all (\<lambda>v. []) (server not_found_payload) (\<lambda>p. True) example_args =
       \<lparr>exit_code = 1,
        stderr = [FetchingTraces (U ''s1''), PhoenixURL (U ''http://localhost:6006''),
                  NoSessionFound (U ''s1'')],
        stdout = [], files_written = []\<rparr>"
proof -
  have p: "server not_found_payload (arg_base_url example_args @ U ''/graphql'') (arg_session_id example_args)
      = Reply 200 (Some (JDict [(U ''data'', JDict [(U ''getProjectSessionById'', JNull)])]))"
    by (simp add: server_def not_found_payload_def)
  have st: "\<not> (400 \<le> (200::nat) \<and> (200::nat) < 600)" by simp
  have e: "map_of [(U ''data'', JDict [(U ''getProjectSessionById'', JNull)])] (U ''errors'') = None" by simp
  have d: "map_of [(U ''data'', JDict [(U ''getProjectSessionById'', JNull)])] (U ''data'')
      = Some (JDict [(U ''getProjectSessionById'', JNull)])" by simp
  have s: "map_of [(U ''getProjectSessionById'', JNull)] (U ''getProjectSessionById'') = None \<or>
      map_of [(U ''getProjectSessionById'', JNull)] (U ''getProjectSessionById'') = Some JNull" by simp
  from session_not_found_exit[where post = "server not_found_payload" and args = example_args
      and loads = reject_all and dumps = "\<lambda>v. []" and writable = "\<lambda>p. True", OF p st e d s]
  show ?thesis by (simp add: example_args_def)
qed

text \<open>
  Claim C9. For a payload without a top-level \<^verbatim>\<open>errors\<close> field, \<open>fetch_traces\<close> returns
  the not-found signal and raises nothing when the payload has no \<^verbatim>\<open>data\<close> key at
  all, or when \<^verbatim>\<open>data.getProjectSessionById\<close> is missing, null or any other false
  value, such as an empty object.
\<close>

theorem falsy_session_not_found:
  assumes "post (base_url @ U ''/graphql'') session_id = Reply status (Some (JDict kvs))"
    and "\<not> (400 \<le> status \<and> status < 600)"
    and "map_of kvs (U ''errors'') = None"
    and "map_of kvs (U ''data'') = None \<or>
         (\<exists>d. map_of kvs (U ''data'') = Some (JDict d) \<and>
              (map_of d (U ''getProjectSessionById'') = None \<or>
               (\<exists>v. map_of d (U ''getProjectSessionById'') = Some v \<and> \<not> truthy v)))"
  shows "fetch_traces loads post session_id base_url = Inr None"
proof -
  have "flatten_payload loads (JDict kvs) = Inr None"
    by (rule flatten_payload_not_found[OF assms(3,4)])
  with assms(1,2) show ?thesis by (auto simp: fetch_traces_def)
qed

text \<open>The theorem at the payload \<^verbatim>\<open>{}\<close> and at a session that is an empty object.\<close>

theorem falsy_session_not_found_witness:
  "fetch_traces reject_all (server (JDict [])) (U ''s1'') (U ''http://localhost:6006'') = Inr None \<and>
   fetch_traces reject_all
     (server (JDict [(U ''data'', JDict [(U ''getProjectSessionById'', JDict [])])]))
     (U ''s1'') (U ''http://localhost:6006'') = Inr None"
proof -
  have st: "\<not> (400 \<le> (200::nat) \<and> (200::nat) < 600)" by simp
  have "fetch_traces reject_all (server (JDict [])) (U ''s1'') (U ''http://localhost:6006'') = Inr None"
    by (rule falsy_session_not_found[where status = 200 and kvs = "[]", OF _ st])
       (simp_all add: server_def)
  moreover have "fetch_traces reject_all
     (server (JDict [(U ''data'', JDict [(U ''getProjectSessionById'', JDict [])])]))
     (U ''s1'') (U ''http://localhost:6006'') = Inr None"
    by (rule falsy_session_not_found[where status = 200
          and kvs = "[(U ''data'', JDict [(U ''getProjectSessionById'', JDict [])])]", OF _ st])
       (simp_all add: server_def)
  ultimately show ?thesis by simp
qed

section \<open>Properties of the cross-referencer\<close>

lemma U_eq_Nil [simp]: "U s = [] \<longleftrightarrow> s = []"
  by (simp add: U_def)

lemma U_simps: "U [] = []" "U (c # cs) = of_char c # U cs"
  by (simp_all add: U_def)

lemma then_run_simps [simp]:
  "then_run (out, None) b = (out @ fst b, snd b)"
  "then_run (out, Some e) b = (out, Some e)"
  by (simp_all add: then_run_def)

lemma readlines_example1:
  "readlines (U ''A:x, y\<newline>B:y\<newline>'') = [U ''A:x, y\<newline>'', U ''B:y\<newline>'']"
  by (simp add: readlines_def U_simps)

lemma readlines_example2:
  "readlines (U ''A:x, y\<newline>B:y'') = [U ''A:x, y\<newline>'', U ''B:y'']"
  by (simp add: readlines_def U_simps)

lemma parse_line_examples:
  "parse_line (U ''A:x, y\<newline>'') = Inr (U ''A'', [U ''x'', U ''y''])"
  "parse_line (U ''B:y\<newline>'') = Inr (U ''B'', [U ''y''])"
  "parse_line (U ''B:y'') = Inr (U ''B'', [U ''y''])"
  by (simp_all add: parse_line_def py_strip_def is_space_def U_simps)

lemma process_example1:
  "process_lines ([], []) (readlines (U ''A:x, y\<newline>B:y\<newline>'')) =
     Inr ([(U ''A'', [U ''x'', U ''y'']), (U ''B'', [U ''y''])],
          [(U ''x'', [U ''A'']), (U ''y'', [U ''A'', U ''B''])])"
  unfolding readlines_example1
  by (simp add: parse_line_examples and_then_def add_entry_def add_reference_def)

lemma process_example2:
  "process_lines ([], []) (readlines (U ''A:x, y\<newline>B:y'')) =
     Inr ([(U ''A'', [U ''x'', U ''y'']), (U ''B'', [U ''y''])],
          [(U ''x'', [U ''A'']), (U ''y'', [U ''A'', U ''B''])])"
  unfolding readlines_example2
  by (simp add: parse_line_examples and_then_def add_entry_def add_reference_def)

text \<open>
  Claim C7. For a list file with the lines \<^verbatim>\<open>A:x, y\<close> and \<^verbatim>\<open>B:y\<close> (the last line
  with or without its line end), \<^verbatim>\<open>--dashboard A\<close> prints the references \<^verbatim>\<open>[x, y]\<close>, then
  \<^verbatim>\<open>x\<close> with the count 1 and \<^verbatim>\<open>y\<close> with the count 2, and \<^verbatim>\<open>--reference y\<close> prints the
  dashboards \<^verbatim>\<open>[A, B]\<close>; each run ends with the empty line of line 42.
\<close>

theorem xref_script_example:
  "xref_script \<lparr>arg_reference = None, arg_dashboard = Some (U ''A''), arg_all_dashboards = False\<rparr>
     (Some (U ''A:x, y\<newline>B:y\<newline>'')) =
     ([PrintList [U ''x'', U ''y''], PrintCount (U ''x'') 1, PrintCount (U ''y'') 2, PrintBlank], None) \<and>
   xref_script \<lparr>arg_reference = Some (U ''y''), arg_dashboard = None, arg_all_dashboards = False\<rparr>
     (Some (U ''A:x, y\<newline>B:y\<newline>'')) =
     ([PrintList [U ''A'', U ''B''], PrintBlank], None) \<and>
   xref_script \<lparr>arg_reference = None, arg_dashboard = Some (U ''A''), arg_all_dashboards = False\<rparr>
     (Some (U ''A:x, y\<newline>B:y'')) =
     ([PrintList [U ''x'', U ''y''], PrintCount (U ''x'') 1, PrintCount (U ''y'') 2, PrintBlank], None) \<and>
   xref_script \<lparr>arg_reference = Some (U ''y''), arg_dashboard = None, arg_all_dashboards = False\<rparr>
     (Some (U ''A:x, y\<newline>B:y'')) =
     ([PrintList [U ''A'', U ''B''], PrintBlank], None)"
  unfolding xref_script_def option.case process_example1 process_example2
  by simp

lemma map_of_add_reference:
  "map_of (add_reference d x rd) r =
     (if r = x then Some ((case map_of rd x of Some ds \<Rightarrow> ds | None \<Rightarrow> []) @ [d]) else map_of rd r)"
  by (auto simp: add_reference_def update_conv' split: option.splits)

lemma map_of_fold_add_reference:
  "map_of (fold (add_reference d) refs rd) r =
     (case map_of rd r of
        Some ds \<Rightarrow> Some (ds @ replicate (count_list refs r) d)
      | None \<Rightarrow> if r \<in> set refs then Some (replicate (count_list refs r) d) else None)"
proof (induction refs arbitrary: rd)
  case Nil
  then show ?case by (simp split: option.splits)
next
  case (Cons x refs)
  show ?case
    by (auto simp: Cons.IH map_of_add_reference replicate_app_Cons_same split: option.splits)
qed

lemma listings_Nil [simp]: "listings [] r = []"
  by (simp add: listings_def)

lemma listings_Cons [simp]:
  "listings (e # es) r = replicate (count_list (snd e) r) (fst e) @ listings es r"
  by (simp add: listings_def)

lemma listings_eq_Nil: "listings entries r = [] \<longleftrightarrow> (\<forall>e\<in>set entries. r \<notin> set (snd e))"
  by (induction entries) (auto simp: count_list_0_iff)

lemma length_listings: "length (listings entries r) = (\<Sum>e\<leftarrow>entries. count_list (snd e) r)"
  by (induction entries) auto

lemma count_list_distinct: "distinct xs \<Longrightarrow> count_list xs x = (if x \<in> set xs then 1 else 0)"
  by (induction xs) auto

lemma add_entry_pair:
  "add_entry e (dr, rd) = (AList.update (fst e) (snd e) dr, fold (add_reference (fst e)) (snd e) rd)"
  by (simp add: add_entry_def)

lemma length_listings_distinct:
  "\<forall>e\<in>set entries. distinct (snd e) \<Longrightarrow>
   length (listings entries r) = length (filter (\<lambda>e. r \<in> set (snd e)) entries)"
proof (induction entries)
  case Nil
  then show ?case by simp
next
  case (Cons e es)
  have "count_list (snd e) r = (if r \<in> set (snd e) then 1 else 0)"
    using Cons.prems by (simp add: count_list_distinct)
  with Cons show ?case by simp
qed

lemma fold_add_entry:
  "map_of (fst (fold add_entry entries (dr, rd))) d =
     (case map_of (rev entries) d of Some refs \<Rightarrow> Some refs | None \<Rightarrow> map_of dr d)"
  "map_of (snd (fold add_entry entries (dr, rd))) r =
     (case map_of rd r of
        Some ds \<Rightarrow> Some (ds @ listings entries r)
      | None \<Rightarrow> if listings entries r = [] then None else Some (listings entries r))"
proof (induction entries arbitrary: dr rd)
  case Nil
  {
    case 1
    then show ?case by (simp split: option.splits)
  next
    case 2
    then show ?case by (simp split: option.splits)
  }
next
  case (Cons e es)
  {
    case 1
    show ?case
      by (auto simp: add_entry_pair Cons.IH(1) update_conv' split: option.splits)
  next
    case 2
    show ?case
      by (auto simp: add_entry_pair Cons.IH(2) map_of_fold_add_reference count_list_0_iff
          split: option.splits)
  }
qed

lemma process_lines_fold:
  "map parse_line lines = map Inr entries \<Longrightarrow>
   process_lines dicts lines = Inr (fold add_entry entries dicts)"
proof (induction lines arbitrary: entries dicts)
  case Nil
  then show ?case by simp
next
  case (Cons l ls)
  then obtain e es where "entries = e # es" "parse_line l = Inr e" "map parse_line ls = map Inr es"
    by (cases entries) auto
  with Cons.IH show ?case by simp
qed

lemma print_counts_ok:
  "\<forall>r\<in>set refs. \<exists>ds. map_of rd r = Some ds \<Longrightarrow>
   print_counts rd refs = (map (\<lambda>r. PrintCount r (length (the (map_of rd r)))) refs, None)"
  by (induction refs) auto

text \<open>
  Claim C10, as amended. For a list file whose lines all parse, the dashboard-to-references
  dict keeps, for a dashboard named on several lines, the references of the last such
  line only, while the reference-to-dashboards dict holds, for a reference, the
  dashboard of each line once for every time that line lists the reference. The count
  printed for a reference is therefore the number of times the lines list it: the sum
  over the lines of its occurrences, which is the number of lines listing it when no
  line lists a reference twice.
\<close>

theorem xref_counts_listings:
  assumes "map parse_line (readlines content) = map Inr entries"
    and "map_of (rev entries) d = Some refs"
    and "d \<noteq> []"
  shows "(\<exists>dashboards_references references_dashboards.
           process_lines ([], []) (readlines content) = Inr (dashboards_references, references_dashboards) \<and>
           map_of dashboards_references d = Some refs \<and>
           (\<forall>r. map_of references_dashboards r =
                  (if listings entries r = [] then None else Some (listings entries r)))) \<and>
         xref_script \<lparr>arg_reference = None, arg_dashboard = Some d, arg_all_dashboards = False\<rparr>
           (Some content) =
           (PrintList refs # map (\<lambda>r. PrintCount r (length (listings entries r))) refs @ [PrintBlank],
            None) \<and>
         (\<forall>r. length (listings entries r) = (\<Sum>e\<leftarrow>entries. count_list (snd e) r)) \<and>
         ((\<forall>e\<in>set entries. distinct (snd e)) \<longrightarrow>
          (\<forall>r. length (listings entries r) = length (filter (\<lambda>e. r \<in> set (snd e)) entries)))"
proof -
  let ?out = "fold add_entry entries ([], [])"
  obtain dr rd where out: "?out = (dr, rd)" by (cases ?out)
  have p: "process_lines ([], []) (readlines content) = Inr (dr, rd)"
    using process_lines_fold[OF assms(1)] out by simp
  have dr: "map_of dr d = Some refs"
    using fold_add_entry(1)[of entries "[]" "[]" d] out assms(2) by simp
  have rd: "map_of rd r = (if listings entries r = [] then None else Some (listings entries r))" for r
    using fold_add_entry(2)[of entries "[]" "[]" r] out by simp
  have "(d, refs) \<in> set entries"
    using map_of_SomeD[OF assms(2)] by simp
  then have "\<forall>r\<in>set refs. listings entries r \<noteq> []"
    by (force simp: listings_eq_Nil)
  then have "\<forall>r\<in>set refs. \<exists>ds. map_of rd r = Some ds"
    by (simp add: rd)
  from print_counts_ok[OF this]
  have pc: "print_counts rd refs = (map (\<lambda>r. PrintCount r (length (listings entries r))) refs, None)"
    using \<open>\<forall>r\<in>set refs. listings entries r \<noteq> []\<close> by (simp add: rd cong: map_cong)
  have "xref_script \<lparr>arg_reference = None, arg_dashboard = Some d, arg_all_dashboards = False\<rparr>
           (Some content) =
           (PrintList refs # map (\<lambda>r. PrintCount r (length (listings entries r))) refs @ [PrintBlank],
            None)"
    by (simp add: xref_script_def p dr pc assms(3))
  moreover have "\<forall>r. length (listings entries r) = (\<Sum>e\<leftarrow>entries. count_list (snd e) r)"
    by (simp add: length_listings)
  moreover have "(\<forall>e\<in>set entries. distinct (snd e)) \<longrightarrow>
          (\<forall>r. length (listings entries r) = length (filter (\<lambda>e. r \<in> set (snd e)) entries))"
    using length_listings_distinct by blast
  ultimately show ?thesis using p dr rd by blast
qed

lemma readlines_twice: "readlines (U ''A:x\<newline>A:x\<newline>'') = [U ''A:x\<newline>'', U ''A:x\<newline>'']"
  by (simp add: readlines_def U_simps)

lemma parse_line_Ax: "parse_line (U ''A:x\<newline>'') = Inr (U ''A'', [U ''x''])"
  by (simp add: parse_line_def py_strip_def is_space_def U_simps)

text \<open>The amended claim at a file that names dashboard \<^verbatim>\<open>A\<close> on two lines, both listing
  \<^verbatim>\<open>x\<close>: the count printed for \<^verbatim>\<open>x\<close> is 2, more than the one dashboard that uses it.\<close>

theorem xref_counts_listings_witness:
  "xref_script \<lparr>arg_reference = None, arg_dashboard = Some (U ''A''), arg_all_dashboards = False\<rparr>
     (Some (U ''A:x\<newline>A:x\<newline>'')) =
     ([PrintList [U ''x''], PrintCount (U ''x'') 2, PrintBlank], None) \<and>
   map parse_line (readlines (U ''A:x\<newline>A:x\<newline>'')) =
     map Inr [(U ''A'', [U ''x'']), (U ''A'', [U ''x''])] \<and>
   length (remdups (map fst [(U ''A'', [U ''x'']), (U ''A'', [U ''x''])])) = 1"
proof -
  let ?entries = "[(U ''A'', [U ''x'']), (U ''A'', [U ''x''])]"
  have m: "map parse_line (readlines (U ''A:x\<newline>A:x\<newline>'')) = map Inr ?entries"
    by (simp add: readlines_twice parse_line_Ax)
  have l: "map_of (rev ?entries) (U ''A'') = Some [U ''x'']" by simp
  have n: "U ''A'' \<noteq> []" by simp
  from xref_counts_listings[OF m l n] show ?thesis
    using m by (simp add: listings_def)
qed

lemma readlines_repeat: "readlines (U ''A:y\<newline>A:x, x\<newline>'') = [U ''A:y\<newline>'', U ''A:x, x\<newline>'']"
  by (simp add: readlines_def U_simps)

lemma parse_line_repeat:
  "parse_line (U ''A:y\<newline>'') = Inr (U ''A'', [U ''y''])"
  "parse_line (U ''A:x, x\<newline>'') = Inr (U ''A'', [U ''x'', U ''x''])"
  by (simp_all add: parse_line_def py_strip_def is_space_def U_simps)

text \<open>
  Claim C10 as stated fails: in the file with the lines \<^verbatim>\<open>A:y\<close> and \<^verbatim>\<open>A:x, x\<close>, one
  line lists \<^verbatim>\<open>x\<close>, the dashboard is appended twice for that line and the count printed
  for \<^verbatim>\<open>x\<close> is 2.
\<close>

theorem count_exceeds_lines:
  "map parse_line (readlines (U ''A:y\<newline>A:x, x\<newline>'')) =
     [Inr (U ''A'', [U ''y'']), Inr (U ''A'', [U ''x'', U ''x''])] \<and>
   xref_script \<lparr>arg_reference = None, arg_dashboard = Some (U ''A''), arg_all_dashboards = False\<rparr>
     (Some (U ''A:y\<newline>A:x, x\<newline>'')) =
     ([PrintList [U ''x'', U ''x''], PrintCount (U ''x'') 2, PrintCount (U ''x'') 2, PrintBlank], None) \<and>
   length (filter (\<lambda>e. U ''x'' \<in> set (snd e)) [(U ''A'', [U ''y'']), (U ''A'', [U ''x'', U ''x''])]) = 1"
proof -
  have "process_lines ([], []) (readlines (U ''A:y\<newline>A:x, x\<newline>'')) =
      Inr ([(U ''A'', [U ''x'', U ''x''])], [(U ''y'', [U ''A'']), (U ''x'', [U ''A'', U ''A''])])"
    unfolding readlines_repeat
    by (simp add: parse_line_repeat add_entry_def add_reference_def)
  then show ?thesis
    by (simp add: xref_script_def readlines_repeat parse_line_repeat)
qed

section \<open>Properties of the benchmark lister\<close>

lemma py_split_not_Nil [simp]: "py_split sep s \<noteq> []"
  by (induction s) (auto split: list.splits)

lemma py_split_append: "py_split sep (x @ sep # y) = py_split sep x @ py_split sep y"
proof (induction x)
  case Nil
  then show ?case by simp
next
  case (Cons c x)
  obtain w ws where "py_split sep x = w # ws"
    using py_split_not_Nil[of sep x] by (cases "py_split sep x") auto
  with Cons show ?case by auto
qed

lemma py_split_no_sep: "sep \<notin> set s \<Longrightarrow> py_split sep s = [s]"
  by (induction s) auto

lemma walk_append:
  "walk stack (a @ b) = (case walk stack a of None \<Rightarrow> None | Some stack' \<Rightarrow> walk stack' b)"
  by (induction stack a rule: walk.induct) (auto split: option.splits)

lemma walk_names:
  "list_all valid_name cs \<Longrightarrow>
   (case walk (node # parents) cs of Some (m # ms) \<Rightarrow> Some m | _ \<Rightarrow> None) = subdir node cs"
proof (induction cs arbitrary: node parents)
  case Nil
  then show ?case by simp
next
  case (Cons c cs)
  then show ?case
    by (cases node) (auto simp: valid_name_def split: option.splits)
qed

lemma packages_path_eq: "packages_path = U ''../../integrations/packages''"
  by (simp add: packages_path_def os_path_join_def join_step_def U_simps)

lemma valid_name_fixed [simp]:
  "valid_name (U ''_dev'')" "valid_name (U ''benchmark'')" "valid_name (U ''rally'')"
  by (simp_all add: valid_name_def U_simps)

lemma join_valid: "valid_name b \<Longrightarrow> path \<noteq> [] \<Longrightarrow> last path \<noteq> 47 \<Longrightarrow> join_step path b = path @ 47 # b"
  by (cases b) (auto simp: join_step_def valid_name_def)

lemma last_valid: "valid_name b \<Longrightarrow> last (path @ 47 # b) \<noteq> 47"
  by (cases b rule: rev_cases) (auto simp: valid_name_def)

lemma rally_path_eq:
  assumes "valid_name p"
  shows "os_path_join packages_path [p, U ''_dev'', U ''benchmark'', U ''rally''] =
     packages_path @ 47 # p @ 47 # U ''_dev'' @ 47 # U ''benchmark'' @ 47 # U ''rally''"
proof -
  have 0: "packages_path \<noteq> []" "last packages_path \<noteq> 47"
    by (simp_all add: packages_path_eq U_simps)
  have 1: "join_step packages_path p = packages_path @ 47 # p"
    by (rule join_valid[OF assms 0])
  have 2: "join_step (packages_path @ 47 # p) (U ''_dev'') = (packages_path @ 47 # p) @ 47 # U ''_dev''"
    by (rule join_valid[OF valid_name_fixed(1) _ last_valid[OF assms]]) simp
  have 3: "join_step ((packages_path @ 47 # p) @ 47 # U ''_dev'') (U ''benchmark'') =
      ((packages_path @ 47 # p) @ 47 # U ''_dev'') @ 47 # U ''benchmark''"
    by (rule join_valid[OF valid_name_fixed(2)]) (simp_all add: U_simps)
  have 4: "join_step (((packages_path @ 47 # p) @ 47 # U ''_dev'') @ 47 # U ''benchmark'') (U ''rally'') =
      (((packages_path @ 47 # p) @ 47 # U ''_dev'') @ 47 # U ''benchmark'') @ 47 # U ''rally''"
    by (rule join_valid[OF valid_name_fixed(3)]) (simp_all add: U_simps)
  show ?thesis unfolding os_path_join_def foldl_Cons foldl_Nil 1 2 3 4 by simp
qed

lemma resolve_below:
  assumes r: "resolve cwd path = Some node" and rel: "hd path \<noteq> 47"
    and names: "list_all valid_name cs" and cs: "py_split 47 rest = cs"
  shows "resolve cwd (path @ 47 # rest) = subdir node cs"
proof -
  from r have ne: "path \<noteq> []" "cwd \<noteq> []" by (auto simp: resolve_def split: if_splits)
  from r rel ne obtain parents where w: "walk cwd (py_split 47 path) = Some (node # parents)"
    by (auto simp: resolve_def split: option.splits list.splits)
  have hd: "hd (path @ 47 # rest) \<noteq> 47" using rel ne by (cases path) auto
  have "walk cwd (py_split 47 (path @ 47 # rest)) = walk (node # parents) cs"
    by (simp add: py_split_append walk_append w cs)
  then show ?thesis
    using walk_names[OF names, of node parents] hd ne
    by (auto simp: resolve_def split: option.splits list.splits)
qed

lemma split_names4:
  assumes "valid_name p"
  shows "py_split 47 (p @ 47 # U ''_dev'' @ 47 # U ''benchmark'' @ 47 # U ''rally'') =
     [p, U ''_dev'', U ''benchmark'', U ''rally'']"
proof -
  have "py_split 47 p = [p]" using assms by (simp add: py_split_no_sep valid_name_def)
  moreover have "py_split 47 (U ''_dev'' @ 47 # U ''benchmark'' @ 47 # U ''rally'') =
      [U ''_dev'', U ''benchmark'', U ''rally'']"
    by (simp add: U_simps)
  ultimately show ?thesis by (simp add: py_split_append)
qed

lemma rally_resolve:
  assumes "resolve cwd packages_path = Some (Dir pkgs)" and "valid_name p"
  shows "resolve cwd (os_path_join packages_path [p, U ''_dev'', U ''benchmark'', U ''rally'']) =
     subdir (Dir pkgs) [p, U ''_dev'', U ''benchmark'', U ''rally'']"
  unfolding rally_path_eq[OF assms(2)]
proof (rule resolve_below[OF assms(1) _ _ split_names4[OF assms(2)]])
  show "hd packages_path \<noteq> 47" by (simp add: packages_path_eq U_simps)
  show "list_all valid_name [p, U ''_dev'', U ''benchmark'', U ''rally'']"
    by (simp add: assms(2))
qed

lemma benchmark_resolve:
  assumes "resolve cwd path = Some (Dir bs)" and "hd path \<noteq> 47" and "last path \<noteq> 47"
    and "valid_name b"
  shows "resolve cwd (os_path_join path [b]) = map_of bs b"
proof -
  from assms(1) have ne: "path \<noteq> []" by (auto simp: resolve_def split: if_splits)
  have j: "os_path_join path [b] = path @ 47 # b"
    by (simp add: os_path_join_def join_valid[OF assms(4) ne assms(3)])
  have s: "py_split 47 b = [b]" using assms(4) by (simp add: py_split_no_sep valid_name_def)
  have "resolve cwd (path @ 47 # b) = subdir (Dir bs) [b]"
    by (rule resolve_below[OF assms(1,2) _ s]) (simp add: assms(4))
  then show ?thesis by (simp add: j split: option.splits)
qed

lemma wf_fs_subdir: "wf_fs node \<Longrightarrow> subdir node cs = Some m \<Longrightarrow> wf_fs m"
proof (induction node cs rule: subdir.induct)
  case (1 node)
  then show ?case by simp
next
  case (2 c cs)
  then show ?case by simp
next
  case (3 entries c cs)
  from 3(3) obtain child where c: "map_of entries c = Some child" "subdir child cs = Some m"
    by (auto split: option.splits)
  from map_of_SomeD[OF c(1)] 3(2) have "wf_fs child" by auto
  from 3(1)[OF c(1) this c(2)] show ?case .
qed

lemma rally_hd_last:
  assumes "valid_name p"
  shows "hd (os_path_join packages_path [p, U ''_dev'', U ''benchmark'', U ''rally'']) \<noteq> 47"
    and "last (os_path_join packages_path [p, U ''_dev'', U ''benchmark'', U ''rally'']) \<noteq> 47"
  unfolding rally_path_eq[OF assms] by (simp_all add: packages_path_eq U_simps)

lemma benchmark_lines:
  assumes r: "resolve cwd path = Some (Dir bs)" and h: "hd path \<noteq> 47" "last path \<noteq> 47"
    and wf: "wf_fs (Dir bs)"
  shows "filter (\<lambda>b. os_path_isdir cwd (os_path_join path [b])) (map fst bs) =
     map fst (filter (\<lambda>b. is_dir_node (snd b)) bs)"
proof -
  have "os_path_isdir cwd (os_path_join path [fst e]) = is_dir_node (snd e)" if "e \<in> set bs" for e
  proof -
    from wf that have v: "valid_name (fst e)" by auto
    from wf that have "map_of bs (fst e) = Some (snd e)" by (cases e) auto
    then show ?thesis by (simp add: os_path_isdir_def benchmark_resolve[OF r h v])
  qed
  then show ?thesis by (simp add: filter_map o_def cong: filter_cong)
qed

lemma list_packages_blocks:
  assumes r: "resolve cwd packages_path = Some (Dir pkgs)" and wf: "wf_fs (Dir pkgs)"
    and sub: "set es \<subseteq> set pkgs"
  shows "list_packages cwd (map fst es) = (concat (map benchmark_block es), None)"
  using sub
proof (induction es)
  case Nil
  then show ?case by simp
next
  case (Cons e es)
  let ?rally = "os_path_join packages_path [fst e, U ''_dev'', U ''benchmark'', U ''rally'']"
  from Cons.prems have mem: "e \<in> set pkgs" and IH: "list_packages cwd (map fst es) = (concat (map benchmark_block es), None)"
    using Cons.IH by auto
  from wf mem have v: "valid_name (fst e)" and wfe: "wf_fs (snd e)" by auto
  from wf mem have look: "map_of pkgs (fst e) = Some (snd e)" by (cases e) auto
  have res: "resolve cwd ?rally = subdir (snd e) [U ''_dev'', U ''benchmark'', U ''rally'']"
    by (simp add: rally_resolve[OF r v] look)
  show ?case
  proof (cases "subdir (snd e) [U ''_dev'', U ''benchmark'', U ''rally'']")
    case None
    then have "benchmark_block e = []" by (simp add: benchmark_block_def)
    then show ?thesis
      using res IH None by (simp add: os_path_isdir_def Let_def)
  next
    case (Some node)
    show ?thesis
    proof (cases node)
      case File
      then have "benchmark_block e = []" using Some by (simp add: benchmark_block_def)
      then show ?thesis
        using res IH Some File by (simp add: os_path_isdir_def Let_def)
    next
      case (Dir bs)
      from wf_fs_subdir[OF wfe Some] Dir have wfb: "wf_fs (Dir bs)" by simp
      have rr: "resolve cwd ?rally = Some (Dir bs)" using res Some Dir by simp
      have lines: "filter (\<lambda>b. os_path_isdir cwd (os_path_join ?rally [b])) (map fst bs) =
          map fst (filter (\<lambda>b. is_dir_node (snd b)) bs)"
        by (rule benchmark_lines[OF rr rally_hd_last[OF v] wfb])
      have isd: "os_path_isdir cwd ?rally" by (simp add: os_path_isdir_def rr)
      have ls: "os_listdir cwd ?rally = Inr (map fst bs)" by (simp add: os_listdir_def rr)
      have blk: "benchmark_block e = [U ''Package: '' @ fst e] @
          map (\<lambda>b. U ''* '' @ fst b) (filter (\<lambda>b. is_dir_node (snd b)) bs) @ [[]]"
        by (simp add: benchmark_block_def Some Dir)
      show ?thesis
        unfolding list.map list_packages.simps Let_def
        by (simp only: isd if_True ls sum.case lines IH blk then_run_simps fst_conv snd_conv
            concat.simps map_map o_def) (simp add: U_simps)
    qed
  qed
qed

lemma package_line_in_block:
  "U ''Package: '' @ p \<in> set (benchmark_block e) \<longleftrightarrow>
   p = fst e \<and> (\<exists>benchmarks. subdir (snd e) [U ''_dev'', U ''benchmark'', U ''rally''] = Some (Dir benchmarks))"
proof (cases "subdir (snd e) [U ''_dev'', U ''benchmark'', U ''rally'']")
  case None
  then show ?thesis by (simp add: benchmark_block_def)
next
  case (Some node)
  show ?thesis
  proof (cases node)
    case File
    then show ?thesis using Some by (simp add: benchmark_block_def)
  next
    case (Dir bs)
    have "U ''Package: '' @ p \<noteq> U ''* '' @ x" for x by (simp add: U_simps)
    moreover have "U ''Package: '' @ p \<noteq> []" by (simp add: U_simps)
    ultimately show ?thesis using Some Dir by (auto simp: benchmark_block_def)
  qed
qed

text \<open>
  Claim C8. When the packages directory exists, with entries named as a file system
  names them, the lister prints, in the order of the directory, one block for every
  entry that has the directory \<^verbatim>\<open>_dev/benchmark/rally\<close> and nothing for the others: the
  package name, then the names of the immediate entries of that directory that are
  directories, then an empty line. So a package name is printed if and only if the
  package has that directory.
\<close>

theorem lister_prints_blocks:
  assumes "resolve cwd packages_path = Some (Dir packages)"
    and "wf_fs (Dir packages)"
  shows "list_benchmark_packages cwd = (concat (map benchmark_block packages), None) \<and>
     (\<forall>p. U ''Package: '' @ p \<in> set (fst (list_benchmark_packages cwd)) \<longleftrightarrow>
          (\<exists>node benchmarks. (p, node) \<in> set packages \<and>
             subdir node [U ''_dev'', U ''benchmark'', U ''rally''] = Some (Dir benchmarks)))"
proof -
  have l: "list_benchmark_packages cwd = (concat (map benchmark_block packages), None)"
    using list_packages_blocks[OF assms, of packages]
    by (simp add: list_benchmark_packages_def os_listdir_def assms(1))
  have "U ''Package: '' @ p \<in> set (concat (map benchmark_block packages)) \<longleftrightarrow>
          (\<exists>node benchmarks. (p, node) \<in> set packages \<and>
             subdir node [U ''_dev'', U ''benchmark'', U ''rally''] = Some (Dir benchmarks))" for p
    by (force simp: package_line_in_block)
  with l show ?thesis by simp
qed

lemma resolve_example:
  "resolve example_cwd packages_path = Some (Dir
     [(U ''nginx'', Dir [(U ''_dev'', Dir [(U ''benchmark'', Dir [(U ''rally'', Dir
         [(U ''logs'', Dir []), (U ''README.md'', File), (U ''metrics'', Dir [])])])])]),
      (U ''apache'', Dir [(U ''_dev'', Dir [(U ''build'', Dir [])])]),
      (U ''notes.txt'', File)])"
  by (simp add: resolve_def packages_path_eq example_cwd_def example_root_def U_simps)

text \<open>The theorem at the sample checkout: one package has the rally directory, with
  two directories and a file in it.\<close>

theorem lister_prints_blocks_witness:
  "list_benchmark_packages example_cwd =
     ([U ''Package: nginx'', U ''* logs'', U ''* metrics'', []], None)"
proof -
  let ?pk = "[(U ''nginx'', Dir [(U ''_dev'', Dir [(U ''benchmark'', Dir [(U ''rally'', Dir
         [(U ''logs'', Dir []), (U ''README.md'', File), (U ''metrics'', Dir [])])])])]),
      (U ''apache'', Dir [(U ''_dev'', Dir [(U ''build'', Dir [])])]),
      (U ''notes.txt'', File)]"
  have wf: "wf_fs (Dir ?pk)" by (simp add: valid_name_def U_simps)
  from lister_prints_blocks[OF resolve_example wf]
  have "list_benchmark_packages example_cwd = (concat (map benchmark_block ?pk), None)" by blast
  then show ?thesis by (simp add: benchmark_block_def U_simps)
qed

section \<open>Properties of the JSON library\<close>

lemma decode_uXXXX_shorter: "decode_uXXXX s = Some (u, r) \<Longrightarrow> length r < length s"
  by (induction s rule: decode_uXXXX.induct) (auto split: option.splits)

lemma length_skip_space: "length (skip_space s) \<le> length s"
  by (simp add: skip_space_def length_dropWhile_le)

lemma append_char_eq_Some:
  "append_char ch res = Some (str, r) \<longleftrightarrow> (\<exists>str'. res = Some (str', r) \<and> str = ch # str')"
  by (auto simp: append_char_def split: option.splits)

lemma scanstring_shorter: "scanstring s = Some (str, r) \<Longrightarrow> length r < length s"
proof (induction s arbitrary: str rule: scanstring.induct)
  case 1
  then show ?case by simp
next
  case (2 c cs)
  show ?case
  proof (cases "c = 34")
    case True
    with 2(6) show ?thesis by simp
  next
    case n34: False
    show ?thesis
    proof (cases "c = 92")
      case False
      with n34 2(6) obtain str' where "scanstring cs = Some (str', r)"
        by (auto simp: append_char_eq_Some split: if_splits)
      from 2(5)[OF n34 False _ this] 2(6) n34 False show ?thesis
        by (auto split: if_splits)
    next
      case True
      with 2(6) n34 obtain esc es where cs: "cs = esc # es" by (cases cs) auto
      show ?thesis
      proof (cases "esc = 117")
        case False
        with 2(6) n34 True cs obtain ch str' where u: "unescape esc = Some ch" "scanstring es = Some (str', r)"
          by (auto simp: append_char_eq_Some split: option.splits)
        from 2(1)[OF n34 True cs False u(1) u(2)] cs show ?thesis by simp
      next
        case u117: True
        with 2(6) n34 True cs obtain uni r1 where d: "decode_uXXXX es = Some (uni, r1)"
          by (auto split: option.splits)
        have l1: "length r1 < length es" by (rule decode_uXXXX_shorter[OF d])
        show ?thesis
        proof (cases "0xD800 \<le> uni \<and> uni \<le> 0xDBFF \<and> starts_with [92, 117] r1")
          case False
          with 2(6) n34 True cs u117 d obtain str' where s: "scanstring r1 = Some (str', r)"
            by (auto simp: append_char_eq_Some)
          from 2(4)[OF n34 True cs _ d refl False s] u117 l1 cs show ?thesis by simp
        next
          case hi: True
          with 2(6) n34 True cs u117 d obtain uni2 r2 where d2: "decode_uXXXX (drop 2 r1) = Some (uni2, r2)"
            by (auto split: option.splits)
          have l2: "length r2 < length r1" using decode_uXXXX_shorter[OF d2] by simp
          show ?thesis
          proof (cases "0xDC00 \<le> uni2 \<and> uni2 \<le> 0xDFFF")
            case True
            with 2(6) n34 \<open>c = 92\<close> cs u117 d hi d2 obtain str' where s: "scanstring r2 = Some (str', r)"
              by (auto simp: append_char_eq_Some)
            from 2(2)[OF n34 \<open>c = 92\<close> cs _ d refl hi d2 refl True s] u117 l1 l2 cs show ?thesis by simp
          next
            case False
            with 2(6) n34 \<open>c = 92\<close> cs u117 d hi d2 obtain str' where s: "scanstring r1 = Some (str', r)"
              by (auto simp: append_char_eq_Some)
            from 2(3)[OF n34 \<open>c = 92\<close> cs _ d refl hi d2 refl False s] u117 l1 cs show ?thesis by simp
          qed
        qed
      qed
    qed
  qed
qed

lemma scan_fraction_split: "scan_fraction s = (frac, s1) \<Longrightarrow> s = frac @ s1"
  by (auto simp: scan_fraction_def split: list.splits if_splits)

lemma scan_exponent_split: "scan_exponent s = (ex, s2) \<Longrightarrow> s = ex @ s2"
  by (cases s; cases "tl s")
     (auto simp: scan_exponent_def Let_def split: if_splits)

lemma after_integer_split: "after_integer i s = Some (l, f, r) \<Longrightarrow> i @ s = l @ r"
  by (auto simp: after_integer_def Let_def split: prod.splits
      dest!: scan_fraction_split scan_exponent_split)

lemma after_integer_prefix: "after_integer i s = Some (l, f, r) \<Longrightarrow> \<exists>t. l = i @ t"
  by (auto simp: after_integer_def Let_def split: prod.splits)

lemma match_number_cases:
  assumes "match_number s = Some (l, f, r)"
  obtains sign d ds where "s = sign @ d # ds" "sign = [] \<or> sign = [45]" "49 \<le> d" "d \<le> 57"
      "after_integer (sign @ d # takeWhile is_digit ds) (dropWhile is_digit ds) = Some (l, f, r)"
    | sign ds where "s = sign @ 48 # ds" "sign = [] \<or> sign = [45]"
      "after_integer (sign @ [48]) ds = Some (l, f, r)"
proof (cases s)
  case Nil
  with assms show ?thesis by (simp add: match_number_def Let_def)
next
  case (Cons c cs)
  show ?thesis
  proof (cases "c = 45")
    case True
    with assms Cons obtain d ds where cs: "cs = d # ds"
      by (cases cs) (auto simp: match_number_def Let_def)
    show ?thesis
    proof (cases "49 \<le> d \<and> d \<le> 57")
      case T: True
      with assms Cons True cs
      have "after_integer ([45] @ d # takeWhile is_digit ds) (dropWhile is_digit ds) = Some (l, f, r)"
        by (simp add: match_number_def Let_def)
      then show ?thesis using that(1)[of "[45]" d ds] Cons True cs T by simp
    next
      case F: False
      with assms Cons True cs have d: "d = 48" and "after_integer ([45] @ [48]) ds = Some (l, f, r)"
        by (auto simp: match_number_def Let_def split: if_splits)
      then show ?thesis using that(2)[of "[45]" ds] Cons True cs by simp
    qed
  next
    case False
    show ?thesis
    proof (cases "49 \<le> c \<and> c \<le> 57")
      case T: True
      with assms Cons False
      have "after_integer ([] @ c # takeWhile is_digit cs) (dropWhile is_digit cs) = Some (l, f, r)"
        by (simp add: match_number_def Let_def)
      then show ?thesis using that(1)[of "[]" c cs] Cons T by simp
    next
      case F: False
      with assms Cons False have d: "c = 48" and "after_integer ([] @ [48]) cs = Some (l, f, r)"
        by (auto simp: match_number_def Let_def split: if_splits)
      then show ?thesis using that(2)[of "[]" cs] Cons by simp
    qed
  qed
qed

lemma match_number_split: "match_number s = Some (l, f, r) \<Longrightarrow> s = l @ r \<and> l \<noteq> []"
proof (erule match_number_cases)
  fix sign d ds
  assume s: "s = sign @ d # ds"
    and a: "after_integer (sign @ d # takeWhile is_digit ds) (dropWhile is_digit ds) = Some (l, f, r)"
  from after_integer_split[OF a] have "l @ r = sign @ d # ds" by simp
  moreover from after_integer_prefix[OF a] have "l \<noteq> []" by auto
  ultimately show "s = l @ r \<and> l \<noteq> []" using s by simp
next
  fix sign ds
  assume s: "s = sign @ 48 # ds" and a: "after_integer (sign @ [48]) ds = Some (l, f, r)"
  from after_integer_split[OF a] have "l @ r = sign @ 48 # ds" by simp
  moreover from after_integer_prefix[OF a] have "l \<noteq> []" by auto
  ultimately show "s = l @ r \<and> l \<noteq> []" using s by simp
qed

lemma match_number_shorter: "match_number s = Some (l, f, r) \<Longrightarrow> length r < length s"
  by (drule match_number_split) (cases l, auto)

lemma skip_space_Cons_shorter: "skip_space s = d # ds \<Longrightarrow> length ds < length s"
  using length_skip_space[of s] by simp

lemma starts_with_drop_shorter: "s \<noteq> [] \<Longrightarrow> 0 < k \<Longrightarrow> length (drop k s) < length s"
  by simp

lemma scan_shorter:
  fixes n :: nat
  shows "\<And>s v r. scan_once fl n s = Scanned v r \<Longrightarrow> length r < length s"
    and "\<And>s acc v r. parse_array fl n s acc = Scanned v r \<Longrightarrow> length r < length s"
    and "\<And>s kvs v r. parse_object fl n s kvs = Scanned v r \<Longrightarrow> length r < length s"
proof (induction n)
  case 0
  {
    case 1 then show ?case by simp
  next
    case 2 then show ?case by simp
  next
    case 3 then show ?case by simp
  }
next
  case (Suc n)
  {
    case 1
    from 1 obtain c cs where s: "s = c # cs" by (cases s) auto
    consider (str) "c = 34" | (obj) "c = 123" | (arr) "c = 91" | (other) "c \<noteq> 34" "c \<noteq> 123" "c \<noteq> 91"
      by blast
    then show ?case
    proof cases
      case str
      with 1 s show ?thesis
        by (auto split: option.splits dest!: scanstring_shorter)
    next
      case obj
      with 1 s consider ds where "skip_space cs = 125 # ds" "r = ds"
        | "parse_object fl n (skip_space cs) [] = Scanned v r"
        by (auto split: list.splits if_splits)
      then show ?thesis
      proof cases
        case 1
        with skip_space_Cons_shorter[OF 1(1)] s show ?thesis by simp
      next
        case 2
        from Suc.IH(3)[OF 2] length_skip_space[of cs] s show ?thesis by simp
      qed
    next
      case arr
      with 1 s consider ds where "skip_space cs = 93 # ds" "r = ds"
        | "parse_array fl n (skip_space cs) [] = Scanned v r"
        by (auto split: list.splits if_splits)
      then show ?thesis
      proof cases
        case 1
        with skip_space_Cons_shorter[OF 1(1)] s show ?thesis by simp
      next
        case 2
        from Suc.IH(2)[OF 2] length_skip_space[of cs] s show ?thesis by simp
      qed
    next
      case other
      with 1 s show ?thesis
        by (auto split: if_splits option.splits dest!: match_number_shorter)
    qed
  next
    case 2
    from 2 obtain v' rest where a: "scan_once fl n s = Scanned v' rest"
      by (auto split: scanned.splits)
    from Suc.IH(1)[OF a] have l1: "length rest < length s" .
    from 2 a obtain d ds where b: "skip_space rest = d # ds"
      by (cases "skip_space rest") auto
    from skip_space_Cons_shorter[OF b] have l2: "length ds < length rest" .
    from 2 a b consider "r = ds" | "parse_array fl n (skip_space ds) (acc @ [v']) = Scanned v r"
      by (auto split: if_splits)
    then show ?case
    proof cases
      case 1
      with l1 l2 show ?thesis by simp
    next
      case 2
      from Suc.IH(2)[OF 2] length_skip_space[of ds] l1 l2 show ?thesis by simp
    qed
  next
    case 3
    from 3 obtain q qs where s: "s = q # qs" "q = 34" by (cases s) (auto split: if_splits)
    from 3 s obtain k rest where k: "scanstring qs = Some (k, rest)"
      by (auto split: option.splits)
    from scanstring_shorter[OF k] have l0: "length rest < length qs" .
    from 3 s k obtain r1 where c: "skip_space rest = 58 # r1"
      by (cases "skip_space rest") (auto split: if_splits)
    from skip_space_Cons_shorter[OF c] have l1: "length r1 < length rest" .
    from 3 s k c obtain v' r2 where a: "scan_once fl n (skip_space r1) = Scanned v' r2"
      by (auto split: scanned.splits)
    from Suc.IH(1)[OF a] length_skip_space[of r1] have l2: "length r2 < length r1" by simp
    from 3 s k c a obtain d ds where b: "skip_space r2 = d # ds"
      by (cases "skip_space r2") auto
    from skip_space_Cons_shorter[OF b] have l3: "length ds < length r2" .
    from 3 s k c a b consider "r = ds"
      | "parse_object fl n (skip_space ds) (AList.update k v' kvs) = Scanned v r"
      by (auto split: if_splits)
    then show ?case
    proof cases
      case 1
      with l0 l1 l2 l3 s show ?thesis by simp
    next
      case 2
      from Suc.IH(3)[OF 2] length_skip_space[of ds] l0 l1 l2 l3 s show ?thesis by simp
    qed
  }
qed

lemma scan_not_exhausted:
  fixes n :: nat
  shows "\<And>s. 2 * length s + 1 \<le> n \<Longrightarrow> scan_once fl n s \<noteq> Exhausted"
    and "\<And>s acc. 2 * length s + 2 \<le> n \<Longrightarrow> parse_array fl n s acc \<noteq> Exhausted"
    and "\<And>s kvs. 2 * length s + 2 \<le> n \<Longrightarrow> parse_object fl n s kvs \<noteq> Exhausted"
proof (induction n)
  case 0
  {
    case 1 then show ?case by simp
  next
    case 2 then show ?case by simp
  next
    case 3 then show ?case by simp
  }
next
  case (Suc n)
  {
    case (1 s)
    show ?case
    proof (cases s)
      case Nil
      then show ?thesis by simp
    next
      case (Cons c cs)
      have obj: "parse_object fl n (skip_space cs) [] \<noteq> Exhausted"
        by (rule Suc.IH(3)) (use 1 Cons length_skip_space[of cs] in simp)
      have arr: "parse_array fl n (skip_space cs) [] \<noteq> Exhausted"
        by (rule Suc.IH(2)) (use 1 Cons length_skip_space[of cs] in simp)
      show ?thesis
        using obj arr Cons
        by (auto split: option.splits list.splits)
    qed
  next
    case (2 s acc)
    have a: "scan_once fl n s \<noteq> Exhausted"
      by (rule Suc.IH(1)) (use 2 in simp)
    show ?case
    proof (cases "scan_once fl n s")
      case (Scanned v rest)
      from scan_shorter(1)[OF Scanned] have l1: "length rest < length s" .
      show ?thesis
      proof (cases "skip_space rest")
        case Nil
        with Scanned show ?thesis by simp
      next
        case (Cons d ds)
        from skip_space_Cons_shorter[OF Cons] have l2: "length ds < length rest" .
        have "parse_array fl n (skip_space ds) (acc @ [v]) \<noteq> Exhausted"
          by (rule Suc.IH(2)) (use 2 l1 l2 length_skip_space[of ds] in simp)
        with Scanned Cons show ?thesis by simp
      qed
    next
      case Invalid
      then show ?thesis by simp
    next
      case Exhausted
      with a show ?thesis by simp
    qed
  next
    case (3 s kvs)
    show ?case
    proof (cases s)
      case Nil
      then show ?thesis by simp
    next
      case (Cons q qs)
      show ?thesis
      proof (cases "scanstring qs")
        case None
        with Cons show ?thesis by simp
      next
        case (Some kr)
        obtain k rest where kr: "kr = (k, rest)" by (cases kr)
        from scanstring_shorter[OF Some[unfolded kr]] have l0: "length rest < length qs" .
        show ?thesis
        proof (cases "skip_space rest")
          case Nil
          with Cons Some kr show ?thesis by simp
        next
          case c: (Cons colon r1)
          from skip_space_Cons_shorter[OF c] have l1: "length r1 < length rest" .
          have a: "scan_once fl n (skip_space r1) \<noteq> Exhausted"
            by (rule Suc.IH(1)) (use 3 Cons l0 l1 length_skip_space[of r1] in simp)
          show ?thesis
          proof (cases "scan_once fl n (skip_space r1)")
            case (Scanned v r2)
            from scan_shorter(1)[OF Scanned] length_skip_space[of r1]
            have l2: "length r2 < length r1" by simp
            show ?thesis
            proof (cases "skip_space r2")
              case Nil
              with Cons Some kr c Scanned show ?thesis by simp
            next
              case d: (Cons d ds)
              from skip_space_Cons_shorter[OF d] have l3: "length ds < length r2" .
              have "parse_object fl n (skip_space ds) (AList.update k v kvs) \<noteq> Exhausted"
                by (rule Suc.IH(3)) (use 3 Cons l0 l1 l2 l3 length_skip_space[of ds] in simp)
              with Cons Some kr c Scanned d show ?thesis by simp
            qed
          next
            case Invalid
            with Cons Some kr c show ?thesis by simp
          next
            case Exhausted
            with a show ?thesis by simp
          qed
        qed
      qed
    qed
  }
qed

lemma json_loads_total: "json_loads fl s = Inl err \<Longrightarrow> err = JSONDecodeError"
proof -
  assume a: "json_loads fl s = Inl err"
  have "2 * length (skip_space s) + 1 \<le> 2 * length s + 1"
    using length_skip_space[of s] by simp
  from scan_not_exhausted(1)[OF this]
  have "scan_once fl (2 * length s + 1) (skip_space s) \<noteq> Exhausted" .
  with a show ?thesis
    by (auto simp: json_loads_def split: if_splits scanned.splits)
qed

lemma attrs_decodable_json_loads: "attrs_decodable (json_loads fl) e"
  unfolding attrs_decodable_def
  by (auto split: option.splits json.splits sum.splits dest: json_loads_total)

lemma fuel7: "(7::nat) = Suc (Suc (Suc (Suc (Suc (Suc (Suc 0))))))" by simp

lemma json_loads_list_text: "json_loads fl list_text = Inr (JList [JInt 1])"
  by (simp add: json_loads_def list_text_def U_simps skip_space_def is_json_space_def
      match_number_def after_integer_def scan_fraction_def scan_exponent_def is_digit_def
      int_of_literal_def digits_value_def fuel7)

lemma fuel17: "(17::nat) = Suc (Suc (Suc (Suc (Suc (Suc (Suc (Suc (Suc (Suc (Suc (Suc (Suc (Suc (Suc (Suc (Suc 0))))))))))))))))" by simp

lemma json_loads_object_text: "json_loads fl object_text = Inr (JDict [(U ''a'', JInt 1)])"
  by (simp add: json_loads_def object_text_def U_simps skip_space_def is_json_space_def
      match_number_def after_integer_def scan_fraction_def scan_exponent_def is_digit_def
      int_of_literal_def digits_value_def append_char_def fuel17)

lemma fuel11: "(11::nat) = Suc (Suc (Suc (Suc (Suc (Suc (Suc (Suc (Suc (Suc (Suc 0))))))))))" by simp

subsection \<open>Strings\<close>

lemma hex_value_hex_digit: "d < 16 \<Longrightarrow> hex_value (hex_digit d) = Some d"
  by (auto simp: hex_value_def hex_digit_def)

lemma hex4_value:
  fixes n :: nat
  assumes "n < 65536"
  shows "((n div 4096 mod 16 * 16 + n div 256 mod 16) * 16 + n div 16 mod 16) * 16 + n mod 16 = n"
proof -
  define a where "a = n div 16"
  define b where "b = a div 16"
  define c where "c = b div 16"
  have 1: "n div 16 = a" "n div 256 = b" "n div 4096 = c"
    by (simp_all add: a_def b_def c_def div_mult2_eq)
  have "c < 16" using assms unfolding 1(3)[symmetric] by simp
  then have c: "c mod 16 = c" by simp
  have n: "a * 16 + n mod 16 = n" unfolding a_def by simp
  have a: "b * 16 + a mod 16 = a" unfolding b_def by simp
  have b: "c * 16 + b mod 16 = b" unfolding c_def by simp
  show ?thesis unfolding 1 c b a n ..
qed

lemma decode_hex4: "n < 65536 \<Longrightarrow> decode_uXXXX (hex4 n @ r) = Some (n, r)"
  using hex4_value[of n] by (simp add: hex4_def hex_value_hex_digit)


lemma scanstring_quote: "scanstring (34 # r) = Some ([], r)"
  by simp

lemma scanstring_plain:
  "c \<noteq> 34 \<Longrightarrow> c \<noteq> 92 \<Longrightarrow> 31 < c \<Longrightarrow> scanstring (c # t) = append_char c (scanstring t)"
  by simp

lemma scanstring_escape:
  "esc \<noteq> 117 \<Longrightarrow> unescape esc = Some ch \<Longrightarrow>
   scanstring (92 # esc # t) = append_char ch (scanstring t)"
  by simp

lemma scanstring_u:
  "decode_uXXXX es = Some (uni, r) \<Longrightarrow>
   scanstring (92 # 117 # es) =
     (if high_surrogate uni \<and> starts_with [92, 117] r then
        (case decode_uXXXX (drop 2 r) of
           None \<Rightarrow> None
         | Some (uni2, r2) \<Rightarrow>
             if low_surrogate uni2 then
               append_char (0x10000 + ((uni - 0xD800) * 1024 + (uni2 - 0xDC00))) (scanstring r2)
             else append_char uni (scanstring r))
      else append_char uni (scanstring r))"
  by (auto simp: high_surrogate_def low_surrogate_def split: option.splits prod.splits)

lemma scanstring_u_safe:
  assumes "decode_uXXXX es = Some (uni, r)" and "high_surrogate uni \<longrightarrow> safe r"
  shows "scanstring (92 # 117 # es) = append_char uni (scanstring r)"
proof (cases "high_surrogate uni \<and> starts_with [92, 117] r")
  case False
  then show ?thesis unfolding scanstring_u[OF assms(1)] by (auto simp del: scanstring.simps)
next
  case True
  with assms(2) obtain u r2 where u: "decode_uXXXX (drop 2 r) = Some (u, r2)" "\<not> low_surrogate u"
    by (auto simp: safe_def split: option.splits)
  with True show ?thesis unfolding scanstring_u[OF assms(1)] by (simp del: scanstring.simps)
qed

lemma scanstring_u_pair:
  assumes "decode_uXXXX es = Some (uni, 92 # 117 # es2)" and "high_surrogate uni"
    and "decode_uXXXX es2 = Some (uni2, r2)" and "low_surrogate uni2"
  shows "scanstring (92 # 117 # es) =
     append_char (0x10000 + ((uni - 0xD800) * 1024 + (uni2 - 0xDC00))) (scanstring r2)"
  unfolding scanstring_u[OF assms(1)] using assms(2-4) by (simp del: scanstring.simps)

lemma escape_char_cases:
  assumes "c < 0x110000"
  obtains (special) esc where "escape_char c = [92, esc]" "esc \<noteq> 117" "unescape esc = Some c"
    | (plain) "escape_char c = [c]" "c \<noteq> 34" "c \<noteq> 92" "31 < c"
    | (bmp) "escape_char c = 92 # 117 # hex4 c" "c < 0x10000"
    | (astral) x where "c = 0x10000 + x" "x < 0x100000"
        "escape_char c = 92 # 117 # hex4 (0xD800 + x div 1024) @ 92 # 117 # hex4 (0xDC00 + x mod 1024)"
proof -
  consider (a) "c \<in> {34, 92, 10, 13, 9, 8, 12}"
    | (b) "c \<notin> {34, 92, 10, 13, 9, 8, 12}" "32 \<le> c" "c \<le> 126"
    | (c) "c \<notin> {34, 92, 10, 13, 9, 8, 12}" "\<not> (32 \<le> c \<and> c \<le> 126)" "c < 0x10000"
    | (d) "0x10000 \<le> c"
    by fastforce
  then show ?thesis
  proof cases
    case a
    then consider "c = 34" | "c = 92" | "c = 10" | "c = 13" | "c = 9" | "c = 8" | "c = 12" by blast
    then show ?thesis
    proof cases
      case 1 then show ?thesis by (intro special[of 34]) (simp_all add: escape_char_def unescape_def)
    next
      case 2 then show ?thesis by (intro special[of 92]) (simp_all add: escape_char_def unescape_def)
    next
      case 3 then show ?thesis by (intro special[of 110]) (simp_all add: escape_char_def unescape_def)
    next
      case 4 then show ?thesis by (intro special[of 114]) (simp_all add: escape_char_def unescape_def)
    next
      case 5 then show ?thesis by (intro special[of 116]) (simp_all add: escape_char_def unescape_def)
    next
      case 6 then show ?thesis by (intro special[of 98]) (simp_all add: escape_char_def unescape_def)
    next
      case 7 then show ?thesis by (intro special[of 102]) (simp_all add: escape_char_def unescape_def)
    qed
  next
    case b
    then show ?thesis by (intro plain) (auto simp: escape_char_def)
  next
    case c
    then show ?thesis by (intro bmp) (auto simp: escape_char_def)
  next
    case d
    define x where "x = c - 0x10000"
    have x: "c = 0x10000 + x" "x < 0x100000" using d assms by (simp_all add: x_def)
    have hi: "x div 1024 mod 1024 = x div 1024" using x(2) by simp
    have "escape_char c = 92 # 117 # hex4 (0xD800 + x div 1024) @ 92 # 117 # hex4 (0xDC00 + x mod 1024)"
      using d by (simp add: escape_char_def x_def[symmetric] hi)
    with x show ?thesis by (rule astral)
  qed
qed

lemma safe_quote: "safe (34 # r)"
  by (simp add: safe_def)

lemma safe_escape_char:
  assumes "c < 0x110000" and "\<not> low_surrogate c"
  shows "safe (escape_char c @ t)"
  using assms(1)
proof (cases rule: escape_char_cases)
  case (special esc)
  then show ?thesis by (simp add: safe_def)
next
  case plain
  then show ?thesis by (simp add: safe_def)
next
  case bmp
  then show ?thesis using assms(2) by (simp add: safe_def decode_hex4)
next
  case (astral x)
  have "decode_uXXXX (hex4 (0xD800 + x div 1024) @ 92 # 117 # hex4 (0xDC00 + x mod 1024) @ t)
      = Some (0xD800 + x div 1024, 92 # 117 # hex4 (0xDC00 + x mod 1024) @ t)"
    by (rule decode_hex4) (use astral(2) in simp)
  moreover have "\<not> low_surrogate (0xD800 + x div 1024)"
    using astral(2) by (simp add: low_surrogate_def)
  ultimately show ?thesis unfolding astral(3) by (simp add: safe_def)
qed

lemma scanstring_escape_char:
  assumes v: "c < 0x110000" and nj: "high_surrogate c \<longrightarrow> safe t"
  shows "scanstring (escape_char c @ t) = append_char c (scanstring t)"
  using v
proof (cases rule: escape_char_cases)
  case (special esc)
  then show ?thesis using scanstring_escape[of esc c t] by (simp del: scanstring.simps)
next
  case plain
  then show ?thesis using scanstring_plain[of c t] by (simp del: scanstring.simps)
next
  case bmp
  have d: "decode_uXXXX (hex4 c @ t) = Some (c, t)" by (rule decode_hex4[OF bmp(2)])
  from scanstring_u_safe[OF d nj] show ?thesis unfolding bmp(1) by (simp del: scanstring.simps)
next
  case (astral x)
  have d1: "decode_uXXXX (hex4 (0xD800 + x div 1024) @ 92 # 117 # hex4 (0xDC00 + x mod 1024) @ t)
      = Some (0xD800 + x div 1024, 92 # 117 # hex4 (0xDC00 + x mod 1024) @ t)"
    by (rule decode_hex4) (use astral(2) in simp)
  have d2: "decode_uXXXX (hex4 (0xDC00 + x mod 1024) @ t) = Some (0xDC00 + x mod 1024, t)"
    by (rule decode_hex4) simp
  have h: "high_surrogate (0xD800 + x div 1024)" using astral(2) by (simp add: high_surrogate_def)
  have l: "low_surrogate (0xDC00 + x mod 1024)"
    using mod_less_divisor[of 1024 x] by (simp add: low_surrogate_def)
  have j: "0x10000 + ((0xD800 + x div 1024 - 0xD800) * 1024 + (0xDC00 + x mod 1024 - 0xDC00)) = c"
    unfolding astral(1) by simp
  from scanstring_u_pair[OF d1 h d2 l] show ?thesis
    unfolding astral(3) j by (simp del: scanstring.simps)
qed

lemma no_joining_tail: "no_joining (c # cs) \<Longrightarrow> no_joining cs"
  by (cases cs) simp_all

lemma scanstring_escaped:
  assumes "code_points s" and "no_joining s"
  shows "scanstring (concat (map escape_char s) @ 34 # rest) = Some (s, rest)"
  using assms
proof (induction s)
  case Nil
  show ?case by simp
next
  case (Cons c cs)
  let ?t = "concat (map escape_char cs) @ 34 # rest"
  from Cons.prems have c: "c < 0x110000" and cs: "code_points cs"
    by (simp_all add: code_points_def)
  from Cons.prems(2) have nj: "no_joining cs" by (rule no_joining_tail)
  have ih: "scanstring ?t = Some (cs, rest)" by (rule Cons.IH[OF cs nj])
  have safe: "high_surrogate c \<longrightarrow> safe ?t"
  proof
    assume h: "high_surrogate c"
    show "safe ?t"
    proof (cases cs)
      case Nil
      then show ?thesis by (simp add: safe_quote)
    next
      case (Cons c2 cs2)
      with Cons.prems(2) h have "\<not> low_surrogate c2" by simp
      moreover from cs Cons have "c2 < 0x110000" by (simp add: code_points_def)
      ultimately have "safe (escape_char c2 @ concat (map escape_char cs2) @ 34 # rest)"
        by (rule safe_escape_char[rotated])
      with Cons show ?thesis by simp
    qed
  qed
  have "scanstring (escape_char c @ ?t) = append_char c (scanstring ?t)"
    by (rule scanstring_escape_char[OF c safe])
  with ih show ?case by (simp add: append_char_def del: scanstring.simps)
qed

lemma scanstring_encode_string:
  assumes "code_points s" and "no_joining s"
  shows "\<exists>t. encode_string s @ rest = 34 # t \<and> scanstring t = Some (s, rest)"
  using scanstring_escaped[OF assms, of rest] by (simp add: encode_string_def del: scanstring.simps)

subsection \<open>Numbers\<close>

lemma takeWhile_digits_stop:
  "num_stop rest \<Longrightarrow> takeWhile is_digit (ds @ rest) = takeWhile is_digit ds"
  by (induction ds) (auto simp: num_stop_def split: list.splits)

lemma dropWhile_digits_stop:
  "num_stop rest \<Longrightarrow> dropWhile is_digit (ds @ rest) = dropWhile is_digit ds @ rest"
  by (induction ds) (auto simp: num_stop_def split: list.splits)

lemma scan_fraction_append:
  assumes "scan_fraction s = (frac, s1)" and "num_stop rest"
  shows "scan_fraction (s @ rest) = (frac, s1 @ rest)"
proof (cases s)
  case Nil
  with assms show ?thesis
    by (cases rest; cases "tl rest") (auto simp: scan_fraction_def num_stop_def)
next
  case (Cons p ps)
  show ?thesis
  proof (cases ps)
    case Nil
    with Cons assms show ?thesis
      by (cases rest) (auto simp: scan_fraction_def num_stop_def)
  next
    case c2: (Cons d ds)
    with Cons assms show ?thesis
      by (auto simp: scan_fraction_def takeWhile_digits_stop dropWhile_digits_stop split: if_splits)
  qed
qed

lemma scan_exponent_append:
  assumes "scan_exponent s = (ex, [])" and "num_stop rest"
  shows "scan_exponent (s @ rest) = (ex, rest)"
proof (cases s)
  case Nil
  with assms show ?thesis
    by (cases rest) (auto simp: scan_exponent_def num_stop_def)
next
  case (Cons e es)
  from assms(1) Cons have e: "e = 101 \<or> e = 69"
    by (auto simp: scan_exponent_def Let_def split: if_splits)
  show ?thesis
  proof (cases es)
    case Nil
    with assms(1) Cons e show ?thesis by (auto simp: scan_exponent_def Let_def)
  next
    case c2: (Cons g gs)
    show ?thesis
    proof (cases "g = 43 \<or> g = 45")
      case True
      define t where "t = gs @ rest"
      from assms(1) Cons c2 e True have ne: "takeWhile is_digit gs \<noteq> []"
        and ex: "ex = e # g # takeWhile is_digit gs" and dr: "dropWhile is_digit gs = []"
        by (auto simp: scan_exponent_def Let_def split: if_splits)
      have tw: "takeWhile is_digit t = takeWhile is_digit gs"
        unfolding t_def by (rule takeWhile_digits_stop[OF assms(2)])
      have dw: "dropWhile is_digit t = rest"
        unfolding t_def dropWhile_digits_stop[OF assms(2)] dr by simp
      have "scan_exponent (e # g # t) = (ex, rest)"
        using e True ne by (auto simp: scan_exponent_def Let_def tw dw ex)
      then show ?thesis by (simp add: Cons c2 t_def)
    next
      case False
      define t where "t = gs @ rest"
      from assms(1) Cons c2 e False have g: "is_digit g"
        by (auto simp: scan_exponent_def Let_def split: if_splits)
      from assms(1) Cons c2 e False g have ex: "ex = e # g # takeWhile is_digit gs"
        and dr: "dropWhile is_digit gs = []"
        by (auto simp: scan_exponent_def Let_def split: if_splits)
      have tw: "takeWhile is_digit t = takeWhile is_digit gs"
        unfolding t_def by (rule takeWhile_digits_stop[OF assms(2)])
      have dw: "dropWhile is_digit t = rest"
        unfolding t_def dropWhile_digits_stop[OF assms(2)] dr by simp
      have "scan_exponent (e # g # t) = (ex, rest)"
        using e False g by (auto simp: scan_exponent_def Let_def tw dw ex)
      then show ?thesis by (simp add: Cons c2 t_def)
    qed
  qed
qed

lemma after_integer_append:
  assumes "after_integer i s = Some (l, f, [])" and "num_stop rest"
  shows "after_integer i (s @ rest) = Some (l, f, rest)"
proof -
  obtain frac s1 where fr: "scan_fraction s = (frac, s1)" by (cases "scan_fraction s")
  obtain ex s2 where ex: "scan_exponent s1 = (ex, s2)" by (cases "scan_exponent s1")
  from assms(1) fr ex have s2: "s2 = []" and l: "l = i @ frac @ ex" and f: "f = (frac \<noteq> [] \<or> ex \<noteq> [])"
    by (auto simp: after_integer_def)
  from scan_fraction_append[OF fr assms(2)] scan_exponent_append[OF ex[unfolded s2] assms(2)]
  show ?thesis by (simp add: after_integer_def l f)
qed

lemma match_number_append:
  assumes "match_number l = Some (l, f, [])" and "num_stop rest"
  shows "match_number (l @ rest) = Some (l, f, rest)"
  using assms(1)
proof (cases rule: match_number_cases)
  case (1 sign d ds)
  from after_integer_append[OF 1(5) assms(2)] 1(1-4) show ?thesis
    by (auto simp: match_number_def Let_def takeWhile_digits_stop[OF assms(2)]
        dropWhile_digits_stop[OF assms(2)])
next
  case (2 sign ds)
  from after_integer_append[OF 2(3) assms(2)] 2(1,2) show ?thesis
    by (auto simp: match_number_def Let_def)
qed

lemma match_number_head:
  assumes "match_number s = Some (l, f, r)"
  shows "\<exists>c cs. s = c # cs \<and> (is_digit c \<or> (c = 45 \<and> (\<exists>d ds. cs = d # ds \<and> is_digit d)))"
  using assms
proof (cases rule: match_number_cases)
  case (1 sign d ds)
  then show ?thesis by (auto simp: is_digit_def)
next
  case (2 sign ds)
  then show ?thesis by (auto simp: is_digit_def)
qed

lemma scan_once_number:
  assumes "match_number l = Some (l, f, [])" and "num_stop rest"
  shows "scan_once fl (Suc n) (l @ rest) =
     (if f then Scanned (JFloat (fl l)) rest else Scanned (JInt (int_of_literal l)) rest)"
proof -
  from match_number_head[OF assms(1)] obtain c cs where
    l: "l = c # cs" and c: "is_digit c \<or> (c = 45 \<and> (\<exists>d ds. cs = d # ds \<and> is_digit d))"
    by blast
  from c l have "c \<noteq> 34" "c \<noteq> 123" "c \<noteq> 91"
    "\<not> starts_with (U ''null'') (l @ rest)" "\<not> starts_with (U ''true'') (l @ rest)"
    "\<not> starts_with (U ''false'') (l @ rest)" "\<not> starts_with (U ''NaN'') (l @ rest)"
    "\<not> starts_with (U ''Infinity'') (l @ rest)" "\<not> starts_with (U ''-Infinity'') (l @ rest)"
    by (auto simp: is_digit_def U_simps)
  with match_number_append[OF assms] l show ?thesis by simp
qed

subsection \<open>Integers\<close>

lemma nat_str_digits: "list_all is_digit (nat_str n)"
proof (induction n rule: nat_str.induct)
  case (1 n)
  show ?case
  proof (cases "n < 10")
    case True
    then show ?thesis by (subst nat_str.simps) (simp add: is_digit_def)
  next
    case False
    have "is_digit (48 + n mod 10)" by (simp add: is_digit_def)
    with 1[OF False] False show ?thesis by (subst nat_str.simps) simp
  qed
qed

lemma nat_str_not_Nil: "nat_str n \<noteq> []"
  by (subst nat_str.simps) simp

lemma nat_str_0: "nat_str 0 = [48]"
  by (simp add: nat_str.simps)

lemma nat_str_hd: "0 < n \<Longrightarrow> 49 \<le> hd (nat_str n) \<and> hd (nat_str n) \<le> 57"
proof (induction n rule: nat_str.induct)
  case (1 n)
  show ?case
  proof (cases "n < 10")
    case True
    with 1(2) show ?thesis by (subst nat_str.simps, simp)+
  next
    case False
    then have "0 < n div 10" by simp
    from 1(1)[OF False this] False show ?thesis
      by (subst nat_str.simps, simp add: nat_str_not_Nil)+
  qed
qed

lemma digits_value_snoc: "digits_value (ds @ [d]) = 10 * digits_value ds + (d - 48)"
  by (simp add: digits_value_def)

lemma digits_value_nat_str: "digits_value (nat_str n) = n"
proof (induction n rule: nat_str.induct)
  case (1 n)
  show ?case
  proof (cases "n < 10")
    case True
    then show ?thesis by (subst nat_str.simps) (simp add: digits_value_def)
  next
    case False
    from 1[OF False] False show ?thesis
      by (subst nat_str.simps) (simp add: digits_value_snoc)
  qed
qed

lemma takeWhile_all: "list_all P xs \<Longrightarrow> takeWhile P xs = xs"
  by (induction xs) auto

lemma dropWhile_all: "list_all P xs \<Longrightarrow> dropWhile P xs = []"
  by (induction xs) auto

lemma after_integer_Nil: "after_integer i [] = Some (i, False, [])"
  by (simp add: after_integer_def scan_fraction_def scan_exponent_def)

lemma match_number_nat_str:
  "match_number (sign @ nat_str n) = Some (sign @ nat_str n, False, [])"
  if "sign = [] \<or> (sign = [45] \<and> 0 < n)"
proof (cases "n = 0")
  case True
  with that show ?thesis by (auto simp: nat_str_0 match_number_def after_integer_Nil)
next
  case False
  then have pos: "0 < n" by simp
  obtain d ds where ds: "nat_str n = d # ds" using nat_str_not_Nil[of n] by (cases "nat_str n") auto
  from nat_str_hd[OF pos] ds have d: "49 \<le> d" "d \<le> 57" by simp_all
  from nat_str_digits[of n] ds have all: "list_all is_digit ds" by simp
  from that d show ?thesis
    by (auto simp: ds match_number_def Let_def takeWhile_all[OF all] dropWhile_all[OF all] after_integer_Nil)
qed

lemma match_number_int_str: "match_number (int_str i) = Some (int_str i, False, [])"
proof (cases "i < 0")
  case True
  then have "0 < nat (- i)" by simp
  from match_number_nat_str[of "[45]" "nat (- i)"] this True show ?thesis
    by (simp add: int_str_def)
next
  case False
  from match_number_nat_str[of "[]" "nat i"] False show ?thesis
    by (simp add: int_str_def)
qed

lemma int_of_literal_int_str: "int_of_literal (int_str i) = i"
proof (cases "i < 0")
  case True
  then show ?thesis by (simp add: int_str_def int_of_literal_def digits_value_nat_str)
next
  case False
  obtain d ds where ds: "nat_str (nat i) = d # ds"
    using nat_str_not_Nil[of "nat i"] by (cases "nat_str (nat i)") auto
  from nat_str_digits[of "nat i"] ds have "is_digit d" by simp
  then have "d \<noteq> 45" by (auto simp: is_digit_def)
  with False ds digits_value_nat_str[of "nat i"] show ?thesis
    by (simp add: int_str_def int_of_literal_def)
qed

lemma scan_once_int:
  "num_stop rest \<Longrightarrow> scan_once fl (Suc n) (int_str i @ rest) = Scanned (JInt i) rest"
  using scan_once_number[OF match_number_int_str, of rest fl n i]
  by (simp add: int_of_literal_int_str del: scan_once.simps)

subsection \<open>Fuel\<close>

lemma scan_more_fuel:
  fixes n :: nat
  shows "\<And>s. scan_once fl n s \<noteq> Exhausted \<Longrightarrow> scan_once fl (Suc n) s = scan_once fl n s"
    and "\<And>s acc. parse_array fl n s acc \<noteq> Exhausted \<Longrightarrow>
           parse_array fl (Suc n) s acc = parse_array fl n s acc"
    and "\<And>s kvs. parse_object fl n s kvs \<noteq> Exhausted \<Longrightarrow>
           parse_object fl (Suc n) s kvs = parse_object fl n s kvs"
proof (induction n)
  case 0
  {
    case 1 then show ?case by simp
  next
    case 2 then show ?case by simp
  next
    case 3 then show ?case by simp
  }
next
  case (Suc n)
  {
    case (1 s)
    show ?case
    proof (cases s)
      case Nil
      then show ?thesis by simp
    next
      case (Cons c cs)
      consider (str) "c = 34" | (obj) "c = 123" | (arr) "c = 91" | (other) "c \<noteq> 34" "c \<noteq> 123" "c \<noteq> 91"
        by blast
      then show ?thesis
      proof cases
        case str
        with Cons show ?thesis by simp
      next
        case obj
        show ?thesis
        proof (cases "skip_space cs")
          case Nil
          with 1 Cons obj have "parse_object fl n [] [] \<noteq> Exhausted" by simp
          from Suc.IH(3)[OF this] Cons obj Nil show ?thesis by simp
        next
          case d: (Cons d ds)
          show ?thesis
          proof (cases "d = 125")
            case True
            with Cons obj d show ?thesis by simp
          next
            case False
            with 1 Cons obj d have "parse_object fl n (d # ds) [] \<noteq> Exhausted" by simp
            from Suc.IH(3)[OF this] Cons obj d False show ?thesis by simp
          qed
        qed
      next
        case arr
        show ?thesis
        proof (cases "skip_space cs")
          case Nil
          with 1 Cons arr have "parse_array fl n [] [] \<noteq> Exhausted" by simp
          from Suc.IH(2)[OF this] Cons arr Nil show ?thesis by simp
        next
          case d: (Cons d ds)
          show ?thesis
          proof (cases "d = 93")
            case True
            with Cons arr d show ?thesis by simp
          next
            case False
            with 1 Cons arr d have "parse_array fl n (d # ds) [] \<noteq> Exhausted" by simp
            from Suc.IH(2)[OF this] Cons arr d False show ?thesis by simp
          qed
        qed
      next
        case other
        with Cons show ?thesis by simp
      qed
    qed
  next
    case (2 s acc)
    show ?case
    proof (cases "scan_once fl n s")
      case (Scanned v rest)
      from Suc.IH(1)[of s] Scanned have up: "scan_once fl (Suc n) s = Scanned v rest" by simp
      show ?thesis
      proof (cases "skip_space rest")
        case Nil
        with Scanned up show ?thesis by (simp del: scan_once.simps)
      next
        case (Cons d ds)
        show ?thesis
        proof (cases "d = 44")
          case True
          with 2 Scanned Cons have "parse_array fl n (skip_space ds) (acc @ [v]) \<noteq> Exhausted"
            by simp
          from Suc.IH(2)[OF this] Scanned up Cons True show ?thesis
            by (simp del: scan_once.simps parse_array.simps(2) add: parse_array.simps(2)[of fl "Suc n"] parse_array.simps(2)[of fl n])
        next
          case False
          with Scanned up Cons show ?thesis
            by (simp del: scan_once.simps parse_array.simps(2) add: parse_array.simps(2)[of fl "Suc n"] parse_array.simps(2)[of fl n])
        qed
      qed
    next
      case Invalid
      from Suc.IH(1)[of s] Invalid have up: "scan_once fl (Suc n) s = Invalid" by simp
      with Invalid show ?thesis by (simp del: scan_once.simps)
    next
      case Exhausted
      with 2 show ?thesis by simp
    qed
  next
    case (3 s kvs)
    show ?case
    proof (cases s)
      case Nil
      then show ?thesis by simp
    next
      case (Cons q qs)
      show ?thesis
      proof (cases "scanstring qs")
        case None
        with Cons show ?thesis by simp
      next
        case (Some kr)
        obtain k rest where kr: "kr = (k, rest)" by (cases kr)
        show ?thesis
        proof (cases "skip_space rest")
          case Nil
          with Cons Some kr show ?thesis by simp
        next
          case c: (Cons colon r1)
          show ?thesis
          proof (cases "q = 34 \<and> colon = 58")
            case False
            with Cons Some kr c show ?thesis by auto
          next
            case qc: True
            show ?thesis
            proof (cases "scan_once fl n (skip_space r1)")
              case (Scanned v r2)
              from Suc.IH(1)[of "skip_space r1"] Scanned
              have up: "scan_once fl (Suc n) (skip_space r1) = Scanned v r2" by simp
              show ?thesis
              proof (cases "skip_space r2")
                case Nil
                with Cons Some kr c qc Scanned up show ?thesis
                  by (simp del: scan_once.simps)
              next
                case d: (Cons d ds)
                show ?thesis
                proof (cases "d = 44")
                  case True
                  with 3 Cons Some kr c qc Scanned d
                  have "parse_object fl n (skip_space ds) (AList.update k v kvs) \<noteq> Exhausted"
                    by simp
                  from Suc.IH(3)[OF this] Cons Some kr c qc Scanned up d True show ?thesis
                    by (simp del: scan_once.simps parse_object.simps(2)
                        add: parse_object.simps(2)[of fl "Suc n"] parse_object.simps(2)[of fl n])
                next
                  case False
                  with Cons Some kr c qc Scanned up d show ?thesis
                    by (simp del: scan_once.simps parse_object.simps(2)
                        add: parse_object.simps(2)[of fl "Suc n"] parse_object.simps(2)[of fl n])
                qed
              qed
            next
              case Invalid
              from Suc.IH(1)[of "skip_space r1"] Invalid
              have up: "scan_once fl (Suc n) (skip_space r1) = Invalid" by simp
              with Cons Some kr c qc Invalid show ?thesis
                by (simp del: scan_once.simps)
            next
              case Exhausted
              with 3 Cons Some kr c qc show ?thesis by simp
            qed
          qed
        qed
      qed
    qed
  }
qed

lemma scan_once_fuel:
  assumes "scan_once fl n s \<noteq> Exhausted" and "n \<le> m"
  shows "scan_once fl m s = scan_once fl n s"
  using assms(2,1)
proof (induction m rule: dec_induct)
  case base
  show ?case by simp
next
  case (step k)
  from step have "scan_once fl k s \<noteq> Exhausted" by simp
  from scan_more_fuel(1)[OF this] step show ?case by simp
qed

lemma parse_array_fuel:
  assumes "parse_array fl n s acc \<noteq> Exhausted" and "n \<le> m"
  shows "parse_array fl m s acc = parse_array fl n s acc"
  using assms(2,1)
proof (induction m rule: dec_induct)
  case base
  show ?case by simp
next
  case (step k)
  from step have "parse_array fl k s acc \<noteq> Exhausted" by simp
  from scan_more_fuel(2)[OF this] step show ?case by simp
qed

lemma parse_object_fuel:
  assumes "parse_object fl n s kvs \<noteq> Exhausted" and "n \<le> m"
  shows "parse_object fl m s kvs = parse_object fl n s kvs"
  using assms(2,1)
proof (induction m rule: dec_induct)
  case base
  show ?case by simp
next
  case (step k)
  from step have "parse_object fl k s kvs \<noteq> Exhausted" by simp
  from scan_more_fuel(3)[OF this] step show ?case by simp
qed

lemma scan_once_Scanned_fuel:
  "scan_once fl n s = Scanned v r \<Longrightarrow> n \<le> m \<Longrightarrow> scan_once fl m s = Scanned v r"
  using scan_once_fuel[of fl n s m] by simp

lemma parse_array_Scanned_fuel:
  "parse_array fl n s acc = Scanned v r \<Longrightarrow> n \<le> m \<Longrightarrow> parse_array fl m s acc = Scanned v r"
  using parse_array_fuel[of fl n s acc m] by simp

lemma parse_object_Scanned_fuel:
  "parse_object fl n s kvs = Scanned v r \<Longrightarrow> n \<le> m \<Longrightarrow> parse_object fl m s kvs = Scanned v r"
  using parse_object_fuel[of fl n s kvs m] by simp

subsection \<open>The first character of an encoded value\<close>

lemma starts_value_append: "starts_value t \<Longrightarrow> starts_value (t @ r)"
  by (cases t) (auto simp: starts_value_def)

lemma starts_value_number:
  "match_number l = Some (l', f, r) \<Longrightarrow> starts_value l"
  by (drule match_number_head) (auto simp: starts_value_def is_digit_def is_json_space_def)

lemma starts_value_encode:
  assumes "round_trippable fl fr v"
  shows "starts_value (encode fr level v)"
proof (cases v)
  case JNull
  then show ?thesis by (simp add: starts_value_def U_simps is_json_space_def)
next
  case (JBool b)
  then show ?thesis by (simp add: starts_value_def U_simps is_json_space_def)
next
  case (JInt i)
  from starts_value_number[OF match_number_int_str] JInt show ?thesis by simp
next
  case (JFloat w)
  show ?thesis
  proof (cases "is_nan w \<or> w = inf_bits \<or> w = neg_inf_bits")
    case True
    with JFloat show ?thesis
      by (auto simp: float_str_def starts_value_def U_simps is_json_space_def)
  next
    case False
    with assms JFloat have "match_number (fr w) = Some (fr w, True, [])"
      by (simp add: float_round_trips_def)
    from starts_value_number[OF this] False JFloat show ?thesis by (simp add: float_str_def)
  qed
next
  case (JStr s)
  then show ?thesis by (simp add: starts_value_def encode_string_def is_json_space_def)
next
  case (JList xs)
  then show ?thesis by (simp add: starts_value_def U_simps is_json_space_def)
next
  case (JDict kvs)
  then show ?thesis by (simp add: starts_value_def U_simps is_json_space_def)
qed

lemma skip_space_starts_value: "starts_value t \<Longrightarrow> skip_space t = t"
  by (cases t) (auto simp: starts_value_def skip_space_def)

lemma skip_space_indent: "starts_value t \<Longrightarrow> skip_space (newline_indent k @ t) = t"
proof -
  assume a: "starts_value t"
  have "\<forall>c\<in>set (newline_indent k). is_json_space c"
    by (auto simp: newline_indent_def is_json_space_def)
  then have "skip_space (newline_indent k @ t) = skip_space t"
    unfolding skip_space_def by (simp add: dropWhile_append2 dropWhile_append3)
  with skip_space_starts_value[OF a] show ?thesis by simp
qed

lemma skip_space_indent_bracket:
  "c = 93 \<or> c = 125 \<Longrightarrow> skip_space (newline_indent k @ c # r) = c # r"
proof -
  assume c: "c = 93 \<or> c = 125"
  have "\<forall>x\<in>set (newline_indent k). is_json_space x"
    by (auto simp: newline_indent_def is_json_space_def)
  then have "skip_space (newline_indent k @ c # r) = skip_space (c # r)"
    unfolding skip_space_def by (simp add: dropWhile_append2 dropWhile_append3)
  with c show ?thesis by (auto simp: skip_space_def is_json_space_def)
qed

lemma num_stop_simps:
  "num_stop []" "num_stop (44 # r)" "num_stop (newline_indent k @ r)"
  by (simp_all add: num_stop_def newline_indent_def is_digit_def)

subsection \<open>Atoms\<close>

lemma scan_once_null: "scan_once fl (Suc n) (U ''null'' @ rest) = Scanned JNull rest"
  by (simp add: U_simps)

lemma scan_once_true: "scan_once fl (Suc n) (U ''true'' @ rest) = Scanned (JBool True) rest"
  by (simp add: U_simps)

lemma scan_once_false: "scan_once fl (Suc n) (U ''false'' @ rest) = Scanned (JBool False) rest"
  by (simp add: U_simps)

lemma scan_once_nan: "scan_once fl (Suc n) (U ''NaN'' @ rest) = Scanned (JFloat nan_bits) rest"
  by (simp add: U_simps)

lemma scan_once_inf: "scan_once fl (Suc n) (U ''Infinity'' @ rest) = Scanned (JFloat inf_bits) rest"
  by (simp add: U_simps)

lemma scan_once_neg_inf:
  "scan_once fl (Suc n) (U ''-Infinity'' @ rest) = Scanned (JFloat neg_inf_bits) rest"
  by (simp add: U_simps)

lemma scan_once_float:
  assumes "float_round_trips fl fr w" and "num_stop rest"
  shows "scan_once fl (Suc n) (float_str fr w @ rest) = Scanned (JFloat w) rest"
proof (cases "is_nan w")
  case True
  with assms(1) have "w = nan_bits" by (simp add: float_round_trips_def)
  with True scan_once_nan[of fl n rest] show ?thesis
    by (simp add: float_str_def del: scan_once.simps)
next
  case nn: False
  show ?thesis
  proof (cases "w = inf_bits \<or> w = neg_inf_bits")
    case True
    have "inf_bits \<noteq> neg_inf_bits" by (simp add: inf_bits_def neg_inf_bits_def)
    with True nn scan_once_inf[of fl n rest] scan_once_neg_inf[of fl n rest] show ?thesis
      by (auto simp: float_str_def simp del: scan_once.simps)
  next
    case False
    with nn assms(1) have m: "match_number (fr w) = Some (fr w, True, [])" and f: "fl (fr w) = w"
      by (simp_all add: float_round_trips_def)
    from scan_once_number[OF m assms(2), of fl n] nn False f show ?thesis
      by (simp add: float_str_def del: scan_once.simps)
  qed
qed

lemma scan_once_string:
  assumes "code_points s" and "no_joining s"
  shows "scan_once fl (Suc n) (encode_string s @ rest) = Scanned (JStr s) rest"
proof -
  from scanstring_encode_string[OF assms, of rest] obtain t where
    "encode_string s @ rest = 34 # t" "scanstring t = Some (s, rest)" by blast
  then show ?thesis by (simp del: scanstring.simps)
qed

subsection \<open>Lists and dicts\<close>

lemma scan_once_list:
  "starts_value t \<Longrightarrow> skip_space cs = t \<Longrightarrow> scan_once fl (Suc n) (91 # cs) = parse_array fl n t []"
  by (cases t) (auto simp: starts_value_def)

lemma scan_once_dict:
  "starts_value t \<Longrightarrow> skip_space cs = t \<Longrightarrow> scan_once fl (Suc n) (123 # cs) = parse_object fl n t []"
  by (cases t) (auto simp: starts_value_def)

lemma scan_once_empty_list: "scan_once fl (Suc n) (U ''[]'' @ rest) = Scanned (JList []) rest"
  by (simp add: U_simps skip_space_def is_json_space_def)

lemma scan_once_empty_dict: "scan_once fl (Suc n) (U ''{}'' @ rest) = Scanned (JDict []) rest"
  by (simp add: U_simps skip_space_def is_json_space_def)

lemma parse_array_step_last:
  "scan_once fl n s = Scanned v r \<Longrightarrow> skip_space r = 93 # ds \<Longrightarrow>
   parse_array fl (Suc n) s acc = Scanned (JList (acc @ [v])) ds"
  by (simp del: scan_once.simps)

lemma parse_array_step_more:
  "scan_once fl n s = Scanned v r \<Longrightarrow> skip_space r = 44 # ds \<Longrightarrow>
   parse_array fl (Suc n) s acc = parse_array fl n (skip_space ds) (acc @ [v])"
  by (simp del: scan_once.simps parse_array.simps(2) add: parse_array.simps(2)[of fl n s acc])

lemma parse_object_step_last:
  "scanstring qs = Some (k, r0) \<Longrightarrow> skip_space r0 = 58 # r1 \<Longrightarrow>
   scan_once fl n (skip_space r1) = Scanned v r2 \<Longrightarrow> skip_space r2 = 125 # ds \<Longrightarrow>
   parse_object fl (Suc n) (34 # qs) acc = Scanned (JDict (AList.update k v acc)) ds"
  by (simp del: scan_once.simps scanstring.simps)

lemma parse_object_step_more:
  "scanstring qs = Some (k, r0) \<Longrightarrow> skip_space r0 = 58 # r1 \<Longrightarrow>
   scan_once fl n (skip_space r1) = Scanned v r2 \<Longrightarrow> skip_space r2 = 44 # ds \<Longrightarrow>
   parse_object fl (Suc n) (34 # qs) acc = parse_object fl n (skip_space ds) (AList.update k v acc)"
  by (simp del: scan_once.simps scanstring.simps parse_object.simps(2)
      add: parse_object.simps(2)[of fl n "34 # qs" acc])

lemma starts_value_join:
  "ts \<noteq> [] \<Longrightarrow> starts_value (hd ts) \<Longrightarrow> starts_value (join_with sep ts)"
  by (induction sep ts rule: join_with.induct) (auto simp: starts_value_append)

lemma update_new: "k \<notin> fst ` set acc \<Longrightarrow> AList.update k v acc = acc @ [(k, v)]"
  by (induction acc) auto

lemma skip_space_comma: "skip_space (44 # r) = 44 # r"
  by (simp add: skip_space_def is_json_space_def)

lemma skip_space_colon: "skip_space (58 # r) = 58 # r"
  by (simp add: skip_space_def is_json_space_def)

lemma skip_space_blank: "starts_value t \<Longrightarrow> skip_space (32 # t) = t"
  using skip_space_starts_value[of t] by (simp add: skip_space_def is_json_space_def)

lemma parse_array_items:
  assumes "\<And>x r. x \<in> set xs \<Longrightarrow> num_stop r \<Longrightarrow> \<exists>n. scan_once fl n (enc x @ r) = Scanned x r"
    and "\<And>x. x \<in> set xs \<Longrightarrow> starts_value (enc x)"
    and "xs \<noteq> []"
  shows "\<exists>n. parse_array fl n
      (join_with (44 # newline_indent k) (map enc xs) @ newline_indent level @ 93 # rest) acc
      = Scanned (JList (acc @ xs)) rest"
  using assms
proof (induction xs arbitrary: acc)
  case Nil
  then show ?case by simp
next
  case (Cons x xs)
  show ?case
  proof (cases xs)
    case Nil
    let ?r = "newline_indent level @ 93 # rest"
    from Cons.prems(1)[of x ?r] obtain n where
      n: "scan_once fl n (enc x @ ?r) = Scanned x ?r"
      by (auto simp: num_stop_simps)
    have sk: "skip_space ?r = 93 # rest" by (rule skip_space_indent_bracket) simp
    from parse_array_step_last[OF n sk, of acc] Nil show ?thesis
      by (auto simp del: parse_array.simps scan_once.simps)
  next
    case c2: (Cons y ys)
    let ?J = "join_with (44 # newline_indent k) (map enc xs)"
    let ?tail = "newline_indent level @ 93 # rest"
    let ?r = "44 # newline_indent k @ ?J @ ?tail"
    from Cons.prems(1)[of x ?r] obtain n1 where
      n1: "scan_once fl n1 (enc x @ ?r) = Scanned x ?r"
      by (auto simp: num_stop_simps)
    have "\<exists>n. parse_array fl n (?J @ ?tail) (acc @ [x]) = Scanned (JList ((acc @ [x]) @ xs)) rest"
      by (rule Cons.IH) (use Cons.prems c2 in auto)
    then obtain n2 where
      n2: "parse_array fl n2 (?J @ ?tail) (acc @ [x]) = Scanned (JList ((acc @ [x]) @ xs)) rest" ..
    define n where "n = max n1 n2"
    have s1: "scan_once fl n (enc x @ ?r) = Scanned x ?r"
      by (rule scan_once_Scanned_fuel[OF n1]) (simp add: n_def)
    have s2: "parse_array fl n (?J @ ?tail) (acc @ [x]) = Scanned (JList ((acc @ [x]) @ xs)) rest"
      by (rule parse_array_Scanned_fuel[OF n2]) (simp add: n_def)
    have "starts_value (enc y)" using Cons.prems(2) c2 by simp
    then have "starts_value ?J" using c2 by (intro starts_value_join) simp_all
    then have "starts_value (?J @ ?tail)" by (rule starts_value_append)
    then have sk2: "skip_space (newline_indent k @ ?J @ ?tail) = ?J @ ?tail"
      by (rule skip_space_indent)
    have j: "join_with (44 # newline_indent k) (map enc (x # xs)) = enc x @ 44 # newline_indent k @ ?J"
      using c2 by simp
    have "parse_array fl (Suc n) (enc x @ ?r) acc = Scanned (JList ((acc @ [x]) @ xs)) rest"
      unfolding parse_array_step_more[OF s1 skip_space_comma] sk2 by (rule s2)
    then show ?thesis unfolding j by (auto simp del: parse_array.simps scan_once.simps)
  qed
qed

lemma parse_object_items:
  assumes "\<And>kv r. kv \<in> set kvs \<Longrightarrow> num_stop r \<Longrightarrow>
        \<exists>n. scan_once fl n (enc (snd kv) @ r) = Scanned (snd kv) r"
    and "\<And>kv. kv \<in> set kvs \<Longrightarrow> starts_value (enc (snd kv))"
    and "\<And>kv. kv \<in> set kvs \<Longrightarrow> code_points (fst kv) \<and> no_joining (fst kv)"
    and "distinct (map fst (acc @ kvs))"
    and "kvs \<noteq> []"
  shows "\<exists>n. parse_object fl n
      (join_with (44 # newline_indent k)
         (map (\<lambda>kv. encode_string (fst kv) @ [58, 32] @ enc (snd kv)) kvs) @
       newline_indent level @ 125 # rest) acc
      = Scanned (JDict (acc @ kvs)) rest"
  using assms
proof (induction kvs arbitrary: acc)
  case Nil
  then show ?case by simp
next
  case (Cons kv kvs)
  obtain key v where kv: "kv = (key, v)" by (cases kv)
  let ?item = "\<lambda>kv. encode_string (fst kv) @ [58, 32] @ enc (snd kv)"
  from Cons.prems(3)[of kv] kv have key: "code_points key" "no_joining key" by simp_all
  from Cons.prems(2)[of kv] kv have hv: "starts_value (enc v)" by simp
  from Cons.prems(4) kv have new: "key \<notin> fst ` set acc" by auto
  have up: "AList.update key v acc = acc @ [(key, v)]" by (rule update_new[OF new])
  show ?case
  proof (cases kvs)
    case Nil
    let ?r = "newline_indent level @ 125 # rest"
    from scanstring_encode_string[OF key, of "[58, 32] @ enc v @ ?r"] obtain t where
      t: "encode_string key @ [58, 32] @ enc v @ ?r = 34 # t"
      and st: "scanstring t = Some (key, [58, 32] @ enc v @ ?r)" by blast
    from Cons.prems(1)[of kv ?r] kv obtain n where
      n: "scan_once fl n (enc v @ ?r) = Scanned v ?r"
      by (auto simp: num_stop_simps)
    have sk0: "skip_space ([58, 32] @ enc v @ ?r) = 58 # 32 # enc v @ ?r"
      by (simp add: skip_space_colon)
    have sk1: "skip_space (32 # enc v @ ?r) = enc v @ ?r"
      by (rule skip_space_blank[OF starts_value_append[OF hv]])
    have sk2: "skip_space ?r = 125 # rest" by (rule skip_space_indent_bracket) simp
    have n': "scan_once fl n (skip_space (32 # enc v @ ?r)) = Scanned v ?r"
      unfolding sk1 by (rule n)
    from parse_object_step_last[OF st sk0 n' sk2, of acc]
    have "parse_object fl (Suc n) (34 # t) acc = Scanned (JDict (acc @ [(key, v)])) rest"
      unfolding up .
    then show ?thesis using Nil kv t
      by (auto simp del: parse_object.simps scan_once.simps scanstring.simps)
  next
    case c2: (Cons kv2 kvs2)
    let ?J = "join_with (44 # newline_indent k) (map ?item kvs)"
    let ?tail = "newline_indent level @ 125 # rest"
    let ?r = "44 # newline_indent k @ ?J @ ?tail"
    from scanstring_encode_string[OF key, of "[58, 32] @ enc v @ ?r"] obtain t where
      t: "encode_string key @ [58, 32] @ enc v @ ?r = 34 # t"
      and st: "scanstring t = Some (key, [58, 32] @ enc v @ ?r)" by blast
    from Cons.prems(1)[of kv ?r] kv obtain n1 where
      n1: "scan_once fl n1 (enc v @ ?r) = Scanned v ?r"
      by (auto simp: num_stop_simps)
    have d: "distinct (map fst ((acc @ [kv]) @ kvs))" using Cons.prems(4) by simp
    have "\<exists>n. parse_object fl n (?J @ ?tail) (acc @ [kv]) = Scanned (JDict ((acc @ [kv]) @ kvs)) rest"
      by (rule Cons.IH[OF _ _ _ d]) (use Cons.prems(1,2,3) c2 in auto)
    then obtain n2 where
      n2: "parse_object fl n2 (?J @ ?tail) (acc @ [kv]) = Scanned (JDict ((acc @ [kv]) @ kvs)) rest" ..
    define n where "n = max n1 n2"
    have s1: "scan_once fl n (enc v @ ?r) = Scanned v ?r"
      by (rule scan_once_Scanned_fuel[OF n1]) (simp add: n_def)
    have s2: "parse_object fl n (?J @ ?tail) (acc @ [kv]) = Scanned (JDict ((acc @ [kv]) @ kvs)) rest"
      by (rule parse_object_Scanned_fuel[OF n2]) (simp add: n_def)
    have sk0: "skip_space ([58, 32] @ enc v @ ?r) = 58 # 32 # enc v @ ?r"
      by (simp add: skip_space_colon)
    have sk1: "skip_space (32 # enc v @ ?r) = enc v @ ?r"
      by (rule skip_space_blank[OF starts_value_append[OF hv]])
    have "starts_value (?item kv2)" by (simp add: starts_value_def encode_string_def is_json_space_def)
    then have "starts_value ?J" using c2 by (intro starts_value_join) simp_all
    then have "starts_value (?J @ ?tail)" by (rule starts_value_append)
    then have sk3: "skip_space (newline_indent k @ ?J @ ?tail) = ?J @ ?tail"
      by (rule skip_space_indent)
    have s1': "scan_once fl n (skip_space (32 # enc v @ ?r)) = Scanned v ?r"
      unfolding sk1 by (rule s1)
    have "parse_object fl (Suc n) (34 # t) acc = Scanned (JDict ((acc @ [kv]) @ kvs)) rest"
      unfolding parse_object_step_more[OF st sk0 s1' skip_space_comma] sk3 up
      using s2 kv by simp
    moreover have "join_with (44 # newline_indent k) (map ?item (kv # kvs)) @ ?tail =
        encode_string key @ [58, 32] @ enc v @ ?r"
      using c2 kv by simp
    ultimately show ?thesis using t
      by (auto simp del: parse_object.simps scan_once.simps scanstring.simps)
  qed
qed

lemma scan_once_encode:
  "round_trippable fl fr v \<Longrightarrow> num_stop rest \<Longrightarrow>
   \<exists>n. scan_once fl n (encode fr level v @ rest) = Scanned v rest"
proof (induction v arbitrary: level rest)
  case JNull
  from scan_once_null[of fl 0 rest] show ?case by (auto simp del: scan_once.simps)
next
  case (JBool b)
  from scan_once_true[of fl 0 rest] scan_once_false[of fl 0 rest] show ?case
    by (cases b) (auto simp del: scan_once.simps)
next
  case (JInt i)
  from scan_once_int[OF JInt(2), of fl 0 i] show ?case by (auto simp del: scan_once.simps)
next
  case (JFloat w)
  from JFloat(1) have "float_round_trips fl fr w" by simp
  from scan_once_float[OF this JFloat(2), of 0] show ?case by (auto simp del: scan_once.simps)
next
  case (JStr s)
  from JStr(1) have "code_points s" "no_joining s" by simp_all
  from scan_once_string[OF this, of fl 0 rest] show ?case by (auto simp del: scan_once.simps)
next
  case (JList xs)
  show ?case
  proof (cases "xs = []")
    case True
    with scan_once_empty_list[of fl 0 rest] show ?thesis by (auto simp del: scan_once.simps)
  next
    case False
    let ?enc = "encode fr (Suc level)"
    let ?J = "join_with (44 # newline_indent (Suc level)) (map ?enc xs)"
    let ?tail = "newline_indent level @ 93 # rest"
    from JList(2) have rt: "\<And>x. x \<in> set xs \<Longrightarrow> round_trippable fl fr x"
      by (simp add: list_all_iff)
    have "\<exists>n. parse_array fl n (?J @ ?tail) [] = Scanned (JList ([] @ xs)) rest"
    proof (rule parse_array_items[OF _ _ False])
      fix x r assume "x \<in> set xs" "num_stop r"
      then show "\<exists>n. scan_once fl n (?enc x @ r) = Scanned x r"
        using JList.IH[of x r "Suc level"] rt by blast
    next
      fix x assume "x \<in> set xs"
      then show "starts_value (?enc x)" using starts_value_encode[OF rt] by blast
    qed
    then obtain n where n: "parse_array fl n (?J @ ?tail) [] = Scanned (JList xs) rest" by auto
    have "starts_value (?enc (hd xs))" using starts_value_encode[OF rt, of "hd xs"] False by simp
    then have "starts_value ?J" using False by (intro starts_value_join) (simp_all add: hd_map)
    then have sv: "starts_value (?J @ ?tail)" by (rule starts_value_append)
    have sk: "skip_space (newline_indent (Suc level) @ ?J @ ?tail) = ?J @ ?tail"
      by (rule skip_space_indent[OF sv])
    have "scan_once fl (Suc n) (91 # newline_indent (Suc level) @ ?J @ ?tail) = Scanned (JList xs) rest"
      unfolding scan_once_list[OF sv sk] by (rule n)
    moreover have "encode fr level (JList xs) @ rest = 91 # newline_indent (Suc level) @ ?J @ ?tail"
      using False by simp
    ultimately show ?thesis by (auto simp del: scan_once.simps)
  qed
next
  case (JDict kvs)
  show ?case
  proof (cases "kvs = []")
    case True
    with scan_once_empty_dict[of fl 0 rest] show ?thesis by (auto simp del: scan_once.simps)
  next
    case False
    let ?enc = "encode fr (Suc level)"
    let ?item = "\<lambda>kv. encode_string (fst kv) @ [58, 32] @ ?enc (snd kv)"
    let ?J = "join_with (44 # newline_indent (Suc level)) (map ?item kvs)"
    let ?tail = "newline_indent level @ 125 # rest"
    from JDict(2) have d: "distinct (map fst ([] @ kvs))"
      and keys: "\<And>kv. kv \<in> set kvs \<Longrightarrow> code_points (fst kv) \<and> no_joining (fst kv)"
      and rt: "\<And>kv. kv \<in> set kvs \<Longrightarrow> round_trippable fl fr (snd kv)"
      by (simp_all add: list_all_iff)
    have "\<exists>n. parse_object fl n (?J @ ?tail) [] = Scanned (JDict ([] @ kvs)) rest"
    proof (rule parse_object_items[OF _ _ keys d False])
      fix kv r assume kv: "kv \<in> set kvs" and r: "num_stop r"
      have "snd kv \<in> Basic_BNFs.snds kv" by (cases kv) simp
      from JDict.IH[OF kv this rt[OF kv] r, of "Suc level"]
      show "\<exists>n. scan_once fl n (?enc (snd kv) @ r) = Scanned (snd kv) r" .
    next
      fix kv assume "kv \<in> set kvs"
      then show "starts_value (?enc (snd kv))" using starts_value_encode[OF rt] by blast
    qed
    then obtain n where n: "parse_object fl n (?J @ ?tail) [] = Scanned (JDict kvs) rest" by auto
    have "starts_value (?item (hd kvs))"
      by (simp add: starts_value_def encode_string_def is_json_space_def)
    then have "starts_value ?J" using False by (intro starts_value_join) (simp_all add: hd_map)
    then have sv: "starts_value (?J @ ?tail)" by (rule starts_value_append)
    have sk: "skip_space (newline_indent (Suc level) @ ?J @ ?tail) = ?J @ ?tail"
      by (rule skip_space_indent[OF sv])
    have "scan_once fl (Suc n) (123 # newline_indent (Suc level) @ ?J @ ?tail) = Scanned (JDict kvs) rest"
      unfolding scan_once_dict[OF sv sk] by (rule n)
    moreover have "encode fr level (JDict kvs) @ rest = 123 # newline_indent (Suc level) @ ?J @ ?tail"
      using False by simp
    ultimately show ?thesis by (auto simp del: scan_once.simps)
  qed
qed

lemma json_loads_encode:
  assumes "round_trippable fl fr v"
  shows "json_loads fl (encode fr level v) = Inr v"
proof -
  let ?t = "encode fr level v"
  from scan_once_encode[OF assms num_stop_simps(1), of level] obtain n where
    n: "scan_once fl n ?t = Scanned v []" by auto
  have sv: "starts_value ?t" by (rule starts_value_encode[OF assms])
  then have bom: "\<not> starts_with [0xFEFF] ?t" by (cases ?t) (auto simp: starts_value_def)
  have sk: "skip_space ?t = ?t" by (rule skip_space_starts_value[OF sv])
  let ?N = "2 * length ?t + 1"
  have ne: "scan_once fl ?N ?t \<noteq> Exhausted" by (rule scan_not_exhausted(1)) simp
  have "scan_once fl ?N ?t = Scanned v []"
  proof (cases "n \<le> ?N")
    case True
    from scan_once_Scanned_fuel[OF n True] show ?thesis .
  next
    case False
    then have "?N \<le> n" by simp
    from scan_once_fuel[OF ne this] n show ?thesis by simp
  qed
  with bom sk show ?thesis by (simp add: json_loads_def skip_space_def del: scan_once.simps)
qed

lemma json_loads_Nil: "json_loads fl [] = Inl JSONDecodeError"
  by (simp add: json_loads_def skip_space_def)

lemma json_loads_by_scan:
  assumes "scan_once fl n (skip_space s) = Scanned v r" and "skip_space r = []"
    and "\<not> starts_with [0xFEFF] s"
  shows "json_loads fl s = Inr v"
proof -
  let ?N = "2 * length s + 1"
  have "2 * length (skip_space s) + 1 \<le> ?N" using length_skip_space[of s] by simp
  from scan_not_exhausted(1)[OF this]
  have ne: "scan_once fl ?N (skip_space s) \<noteq> Exhausted" .
  have "scan_once fl ?N (skip_space s) = Scanned v r"
  proof (cases "n \<le> ?N")
    case True
    from scan_once_Scanned_fuel[OF assms(1) True] show ?thesis .
  next
    case False
    then have "?N \<le> n" by simp
    from scan_once_fuel[OF ne this] assms(1) show ?thesis by simp
  qed
  with assms(2,3) show ?thesis by (simp add: json_loads_def del: scan_once.simps)
qed

lemmas scan_defs = skip_space_def is_json_space_def match_number_def after_integer_def
  scan_fraction_def scan_exponent_def is_digit_def int_of_literal_def digits_value_def
  append_char_def hex_value_def unescape_def

lemma json_loads_nested_text:
  "json_loads fl nested_text =
     Inr (JDict [(U ''k'', JList [JInt (- 20), JStr [120, 10], JBool True, JDict []])])"
proof (rule json_loads_by_scan)
  show "scan_once fl (Suc (Suc (Suc (Suc (Suc (Suc (Suc (Suc (Suc (Suc 0)))))))))) (skip_space nested_text) =
      Scanned (JDict [(U ''k'', JList [JInt (- 20), JStr [120, 10], JBool True, JDict []])]) []"
    by (simp add: nested_text_def U_simps scan_defs)
  show "skip_space [] = []" by (simp add: skip_space_def)
  show "\<not> starts_with [0xFEFF] nested_text" by (simp add: nested_text_def)
qed

lemma json_loads_surrogate_text: "json_loads fl surrogate_text = Inr (JStr [0xD800, 0xDC00])"
proof (rule json_loads_by_scan)
  show "scan_once fl (Suc 0) (skip_space surrogate_text) = Scanned (JStr [0xD800, 0xDC00]) []"
    by (simp add: surrogate_text_def scan_defs)
  show "skip_space [] = []" by (simp add: skip_space_def)
  show "\<not> starts_with [0xFEFF] surrogate_text" by (simp add: surrogate_text_def)
qed

lemma json_loads_floats_text:
  "json_loads sample_float_of floats_text =
     Inr (JList [JFloat 0x3FF8000000000000, JFloat nan_bits, JFloat neg_inf_bits])"
proof (rule json_loads_by_scan)
  show "scan_once sample_float_of (Suc (Suc (Suc (Suc (Suc 0))))) (skip_space floats_text) =
      Scanned (JList [JFloat 0x3FF8000000000000, JFloat nan_bits, JFloat neg_inf_bits]) []"
    by (simp add: floats_text_def U_simps scan_defs sample_float_of_def)
  show "skip_space [] = []" by (simp add: skip_space_def)
  show "\<not> starts_with [0xFEFF] floats_text" by (simp add: floats_text_def U_simps)
qed

lemma is_nan_nan_bits: "is_nan nan_bits"
  by (simp add: is_nan_def nan_bits_def)

lemma not_nan_samples: "\<not> is_nan 0x3FF8000000000000" "\<not> is_nan neg_inf_bits"
  by (simp_all add: is_nan_def neg_inf_bits_def)

lemma json_dumps_surrogates:
  "json_dumps fr (JStr [0xD800, 0xDC00]) = [34, 92, 117, 100, 56, 48, 48, 92, 117, 100, 99, 48, 48, 34]"
  by (simp add: json_dumps_def encode_string_def escape_char_def hex4_def hex_digit_def)

lemma json_loads_dumped_surrogates:
  "json_loads fl (json_dumps fr (JStr [0xD800, 0xDC00])) = Inr (JStr [0x10000])"
proof (rule json_loads_by_scan)
  show "scan_once fl (Suc 0) (skip_space (json_dumps fr (JStr [0xD800, 0xDC00]))) = Scanned (JStr [0x10000]) []"
    unfolding json_dumps_surrogates by (simp add: scan_defs)
  show "skip_space [] = []" by (simp add: skip_space_def)
  show "\<not> starts_with [0xFEFF] (json_dumps fr (JStr [0xD800, 0xDC00]))"
    unfolding json_dumps_surrogates by simp
qed

section \<open>The decoded attributes\<close>

text \<open>
  Claim C4, as amended. A well-formed span node is flattened, and in the flattened span
  the \<^verbatim>\<open>attributes\<close> value is the value the decoder returns, whatever its shape, when
  the response's \<^verbatim>\<open>attributes\<close> is a non-empty string that the decoder accepts; in
  every other case it is the response's \<^verbatim>\<open>attributes\<close> value unchanged, and null when
  the response has none.
\<close>

theorem attributes_decoded_or_unchanged:
  assumes "wf_span_edge e" and "attrs_decodable loads e"
  shows "\<exists>okv. flatten_span loads e = Inr (JDict okv) \<and>
     map_of okv (U ''attributes'') = Some
       (case map_of (node_of e) (U ''attributes'') of
          None \<Rightarrow> JNull
        | Some (JStr s) \<Rightarrow>
            (if s \<noteq> [] then (case loads s of Inr v \<Rightarrow> v | Inl err \<Rightarrow> JStr s) else JStr s)
        | Some a \<Rightarrow> a)"
proof -
  from parse_attrs_ok[OF assms(2)] obtain attrs where
    pa: "parse_attrs loads (case map_of (node_of e) (U ''attributes'') of Some x \<Rightarrow> x | None \<Rightarrow> JNull) = Inr attrs"
    by blast
  have "attrs = (case map_of (node_of e) (U ''attributes'') of
          None \<Rightarrow> JNull
        | Some (JStr s) \<Rightarrow>
            (if s \<noteq> [] then (case loads s of Inr v \<Rightarrow> v | Inl err \<Rightarrow> JStr s) else JStr s)
        | Some a \<Rightarrow> a)"
    using pa by (auto split: option.splits json.splits sum.splits py_error.splits if_splits)
  with flatten_span_wf[OF assms(1) pa] show ?thesis by simp
qed

lemma json_loads_oops: "json_loads fl (U ''{oops'') = Inl JSONDecodeError"
  by (simp add: json_loads_def U_simps skip_space_def is_json_space_def fuel11)

text \<open>The amended claim with \<^verbatim>\<open>json.loads\<close> as the decoder, at three spans: one whose
  attributes are the text \<^verbatim>\<open>{"a": 1}\<close>, decoded to a mapping; one whose attributes are
  the text \<^verbatim>\<open>{oops\<close>, kept as it is; and one whose attributes are null.\<close>

theorem attributes_decoded_or_unchanged_witness:
  "\<forall>fl.
     (\<exists>okv. flatten_span (json_loads fl) (example_span (U ''a'') (JStr object_text)) = Inr (JDict okv) \<and>
        map_of okv (U ''attributes'') = Some (JDict [(U ''a'', JInt 1)])) \<and>
     (\<exists>okv. flatten_span (json_loads fl) (example_span (U ''b'') (JStr (U ''{oops''))) = Inr (JDict okv) \<and>
        map_of okv (U ''attributes'') = Some (JStr (U ''{oops''))) \<and>
     (\<exists>okv. flatten_span (json_loads fl) (example_span (U ''c'') JNull) = Inr (JDict okv) \<and>
        map_of okv (U ''attributes'') = Some JNull)"
proof (intro allI conjI)
  fix fl
  have ne: "object_text \<noteq> []" by (simp add: object_text_def)
  from attributes_decoded_or_unchanged[where e = "example_span (U ''a'') (JStr object_text)"
      and loads = "json_loads fl", OF wf_example_span attrs_decodable_json_loads]
  show "\<exists>okv. flatten_span (json_loads fl) (example_span (U ''a'') (JStr object_text)) = Inr (JDict okv) \<and>
        map_of okv (U ''attributes'') = Some (JDict [(U ''a'', JInt 1)])"
    by (simp add: attributes_example_span json_loads_object_text ne)
  from attributes_decoded_or_unchanged[where e = "example_span (U ''b'') (JStr (U ''{oops''))"
      and loads = "json_loads fl", OF wf_example_span attrs_decodable_json_loads]
  show "\<exists>okv. flatten_span (json_loads fl) (example_span (U ''b'') (JStr (U ''{oops''))) = Inr (JDict okv) \<and>
        map_of okv (U ''attributes'') = Some (JStr (U ''{oops''))"
    by (simp add: attributes_example_span json_loads_oops)
  from attributes_decoded_or_unchanged[where e = "example_span (U ''c'') (JNull)"
      and loads = "json_loads fl", OF wf_example_span attrs_decodable_json_loads]
  show "\<exists>okv. flatten_span (json_loads fl) (example_span (U ''c'') JNull) = Inr (JDict okv) \<and>
        map_of okv (U ''attributes'') = Some JNull"
    by (simp add: attributes_example_span)
qed

text \<open>
  Claim C4 as stated fails: the attributes text \<^verbatim>\<open>[1]\<close> is valid JSON, and the
  flattened span's \<^verbatim>\<open>attributes\<close> is the list it decodes to, which is neither a mapping
  nor the original string.
\<close>

theorem attributes_may_be_a_list:
  "\<forall>fl. \<exists>okv.
     flatten_span (json_loads fl) (example_span (U ''a'') (JStr list_text)) = Inr (JDict okv) \<and>
     map_of okv (U ''attributes'') = Some (JList [JInt 1]) \<and>
     \<not> is_dict (JList [JInt 1]) \<and> JList [JInt 1] \<noteq> JStr list_text"
proof
  fix fl
  have ne: "list_text \<noteq> []" by (simp add: list_text_def)
  have "parse_attrs (json_loads fl)
      (case map_of (node_of (example_span (U ''a'') (JStr list_text))) (U ''attributes'') of
         Some x \<Rightarrow> x | None \<Rightarrow> JNull) = Inr (JList [JInt 1])"
    by (simp add: attributes_example_span json_loads_list_text ne)
  from flatten_span_wf[OF wf_example_span this]
  show "\<exists>okv.
     flatten_span (json_loads fl) (example_span (U ''a'') (JStr list_text)) = Inr (JDict okv) \<and>
     map_of okv (U ''attributes'') = Some (JList [JInt 1]) \<and>
     \<not> is_dict (JList [JInt 1]) \<and> JList [JInt 1] \<noteq> JStr list_text"
    by simp
qed

text \<open>
  Claim C3, as amended. For a well-formed span node whose \<^verbatim>\<open>attributes\<close> is a string that
  \<^verbatim>\<open>json.loads\<close> accepts, the flattened span's \<^verbatim>\<open>attributes\<close> is the decoded value. When
  that value is round-trippable (no string or key of it has a high surrogate right
  before a low surrogate, and every float of it is read back from its repr; keys are
  distinct and strings are made of code points, as in every value of the interpreter),
  decoding the text that \<^verbatim>\<open>json.dumps\<close> writes for it, at the top or at any level of
  indentation, gives the value itself.
\<close>

theorem decoded_attributes_round_trip:
  assumes "wf_span_edge e"
    and "map_of (node_of e) (U ''attributes'') = Some (JStr s)"
    and "json_loads float_of s = Inr v"
  shows "\<exists>okv. flatten_span (json_loads float_of) e = Inr (JDict okv) \<and>
     map_of okv (U ''attributes'') = Some v \<and>
     (round_trippable float_of float_repr v \<longrightarrow>
        json_loads float_of (json_dumps float_repr v) = Inr v \<and>
        (\<forall>level. json_loads float_of (encode float_repr level v) = Inr v))"
proof -
  from assms(3) have ne: "s \<noteq> []" by (auto simp: json_loads_Nil)
  have "parse_attrs (json_loads float_of)
      (case map_of (node_of e) (U ''attributes'') of Some x \<Rightarrow> x | None \<Rightarrow> JNull) = Inr v"
    using assms(2,3) ne by simp
  from flatten_span_wf[OF assms(1) this] obtain okv where
    "flatten_span (json_loads float_of) e = Inr (JDict okv)" "map_of okv (U ''attributes'') = Some v"
    by blast
  moreover have "json_loads float_of (json_dumps float_repr v) = Inr v \<and>
        (\<forall>level. json_loads float_of (encode float_repr level v) = Inr v)"
    if "round_trippable float_of float_repr v"
    using json_loads_encode[OF that] by (simp add: json_dumps_def)
  ultimately show ?thesis by blast
qed

text \<open>The amended claim at two spans. The attributes of the first are the text
  \<^verbatim>\<open>nested_text\<close>, for every pair of float conversions; those of the second are
  \<^verbatim>\<open>floats_text\<close>, for the sample conversions.\<close>

theorem decoded_attributes_round_trip_witness:
  "(\<forall>fl fr.
      json_loads fl nested_text =
        Inr (JDict [(U ''k'', JList [JInt (- 20), JStr [120, 10], JBool True, JDict []])]) \<and>
      round_trippable fl fr (JDict [(U ''k'', JList [JInt (- 20), JStr [120, 10], JBool True, JDict []])]) \<and>
      (\<exists>okv. flatten_span (json_loads fl) (example_span (U ''a'') (JStr nested_text)) = Inr (JDict okv) \<and>
         map_of okv (U ''attributes'') =
           Some (JDict [(U ''k'', JList [JInt (- 20), JStr [120, 10], JBool True, JDict []])])) \<and>
      json_loads fl
        (json_dumps fr (JDict [(U ''k'', JList [JInt (- 20), JStr [120, 10], JBool True, JDict []])])) =
        Inr (JDict [(U ''k'', JList [JInt (- 20), JStr [120, 10], JBool True, JDict []])])) \<and>
   json_loads sample_float_of floats_text =
     Inr (JList [JFloat 0x3FF8000000000000, JFloat nan_bits, JFloat neg_inf_bits]) \<and>
   round_trippable sample_float_of sample_float_repr
     (JList [JFloat 0x3FF8000000000000, JFloat nan_bits, JFloat neg_inf_bits]) \<and>
   (\<exists>okv. flatten_span (json_loads sample_float_of) (example_span (U ''b'') (JStr floats_text))
        = Inr (JDict okv) \<and>
      map_of okv (U ''attributes'') =
        Some (JList [JFloat 0x3FF8000000000000, JFloat nan_bits, JFloat neg_inf_bits])) \<and>
   json_loads sample_float_of
     (json_dumps sample_float_repr (JList [JFloat 0x3FF8000000000000, JFloat nan_bits, JFloat neg_inf_bits])) =
     Inr (JList [JFloat 0x3FF8000000000000, JFloat nan_bits, JFloat neg_inf_bits])"
proof -
  let ?v = "JDict [(U ''k'', JList [JInt (- 20), JStr [120, 10], JBool True, JDict []])]"
  let ?w = "JList [JFloat 0x3FF8000000000000, JFloat nan_bits, JFloat neg_inf_bits]"
  have rt1: "round_trippable fl fr ?v" for fl fr
    by (simp add: code_points_def U_simps high_surrogate_def low_surrogate_def)
  have lit: "match_number (U ''1.5'') = Some (U ''1.5'', True, [])"
    by (simp add: U_simps scan_defs)
  have rt2: "round_trippable sample_float_of sample_float_repr ?w"
    by (simp add: float_round_trips_def is_nan_nan_bits not_nan_samples sample_float_of_def
        sample_float_repr_def lit)
  have first: "(\<exists>okv. flatten_span (json_loads fl) (example_span (U ''a'') (JStr nested_text)) = Inr (JDict okv) \<and>
         map_of okv (U ''attributes'') = Some ?v) \<and>
      json_loads fl (json_dumps fr ?v) = Inr ?v" for fl fr
    using decoded_attributes_round_trip[where e = "example_span (U ''a'') (JStr nested_text)"
        and s = nested_text and float_of = fl and float_repr = fr and v = ?v,
        OF wf_example_span attributes_example_span json_loads_nested_text] rt1[of fl fr]
    by blast
  have second: "(\<exists>okv. flatten_span (json_loads sample_float_of) (example_span (U ''b'') (JStr floats_text))
        = Inr (JDict okv) \<and> map_of okv (U ''attributes'') = Some ?w) \<and>
      json_loads sample_float_of (json_dumps sample_float_repr ?w) = Inr ?w"
    using decoded_attributes_round_trip[where e = "example_span (U ''b'') (JStr floats_text)"
        and s = floats_text and float_of = sample_float_of and float_repr = sample_float_repr
        and v = ?w, OF wf_example_span attributes_example_span json_loads_floats_text] rt2
    by blast
  from first second rt1 rt2 json_loads_nested_text json_loads_floats_text show ?thesis by blast
qed

text \<open>
  Claim C3 as stated fails. The text \<^verbatim>\<open>surrogate_text\<close> is accepted by \<^verbatim>\<open>json.loads\<close>, and
  the flattened span's \<^verbatim>\<open>attributes\<close> is the string of the two surrogates D800 and DC00;
  \<^verbatim>\<open>json.dumps\<close> writes it as two escapes, which \<^verbatim>\<open>json.loads\<close> joins to the one
  character U+10000, another string.
\<close>

theorem surrogates_do_not_round_trip:
  "\<forall>fl fr.
     (\<exists>okv. flatten_span (json_loads fl) (example_span (U ''a'') (JStr surrogate_text)) = Inr (JDict okv) \<and>
        map_of okv (U ''attributes'') = Some (JStr [0xD800, 0xDC00])) \<and>
     json_loads fl (json_dumps fr (JStr [0xD800, 0xDC00])) = Inr (JStr [0x10000]) \<and>
     JStr [0x10000] \<noteq> JStr [0xD800, 0xDC00]"
proof (intro allI conjI)
  fix fl :: "pystr \<Rightarrow> 64 word" and fr :: "64 word \<Rightarrow> pystr"
  have ne: "surrogate_text \<noteq> []" by (simp add: surrogate_text_def)
  have "parse_attrs (json_loads fl)
      (case map_of (node_of (example_span (U ''a'') (JStr surrogate_text))) (U ''attributes'') of
         Some x \<Rightarrow> x | None \<Rightarrow> JNull) = Inr (JStr [0xD800, 0xDC00])"
    by (simp add: attributes_example_span json_loads_surrogate_text ne)
  from flatten_span_wf[OF wf_example_span this]
  show "\<exists>okv. flatten_span (json_loads fl) (example_span (U ''a'') (JStr surrogate_text)) = Inr (JDict okv) \<and>
        map_of okv (U ''attributes'') = Some (JStr [0xD800, 0xDC00])" .
  show "json_loads fl (json_dumps fr (JStr [0xD800, 0xDC00])) = Inr (JStr [0x10000])"
    by (rule json_loads_dumped_surrogates)
  show "JStr [0x10000] \<noteq> JStr [0xD800, 0xDC00]" by simp
qed

end
